theory Spec2Isabelle
  imports Complex_Main "HOL-Library.Log_Nat"
begin

section \<open>Python values used by \<open>src/sft/trainer.py\<close>\<close>

text \<open>
  The exceptions of Python that the modelled code can raise by itself. Failures inside the
  external collaborators (model, optimizer, accelerator, file system) are not modelled:
  those calls are taken to return.
\<close>

datatype error = OverflowError | ZeroDivisionError | IndexError | AttributeError | TypeError

subsection \<open>Floats: IEEE-754 binary64, round to nearest, ties to even\<close>

text \<open>
  A Python \<open>float\<close> is a binary64 value. A finite one is modelled by the rational it
  denotes; the two infinities and NaN are separate constructors. The sign of zero is not
  modelled: Python's \<open>==\<close> identifies \<open>0.0\<close> and \<open>-0.0\<close>, and no
  operation of the tracker divides by a float that can be a signed zero.
\<close>

datatype pyfloat = Fin rat | PInf | NInf | NaN

definition pow2 :: "int \<Rightarrow> rat" where
  "pow2 e = (if 0 \<le> e then 2 ^ nat e else 1 / 2 ^ nat (- e))"

definition pow10 :: "int \<Rightarrow> rat" where
  "pow10 n = (if 0 \<le> n then 10 ^ nat n else 1 / 10 ^ nat (- n))"

definition round_half_even :: "rat \<Rightarrow> int" where
  "round_half_even x =
     (let f = \<lfloor>x\<rfloor>; d = x - of_int f
      in if d < 1 / 2 then f
         else if 1 / 2 < d then f + 1
         else if even f then f else f + 1)"

text \<open>\<open>ilog2 x\<close> is \<open>\<lfloor>log\<^sub>2 x\<rfloor>\<close> for a positive rational \<open>x\<close>.\<close>

definition ilog2 :: "rat \<Rightarrow> int" where
  "ilog2 x = (if 1 \<le> x then bitlen \<lfloor>x\<rfloor> - 1 else - bitlen (\<lceil>1 / x\<rceil> - 1))"

text \<open>
  Rounding a positive rational to binary64: 53 significant bits, the exponent of the
  quantum bounded below by that of the subnormals (\<open>2\<^sup>-\<^sup>1\<^sup>0\<^sup>7\<^sup>4\<close>); a result that
  reaches \<open>2\<^sup>1\<^sup>0\<^sup>2\<^sup>4\<close> overflows (\<open>None\<close>).
\<close>

definition fl_pos :: "rat \<Rightarrow> rat option" where
  "fl_pos x =
     (let e = max (ilog2 x) (- 1022);
          u = pow2 (e - 52);
          y = of_int (round_half_even (x / u)) * u
      in if y < pow2 1024 then Some y else None)"

definition fl :: "rat \<Rightarrow> pyfloat" where
  "fl x =
     (if x = 0 then Fin 0
      else if 0 < x then (case fl_pos x of Some y \<Rightarrow> Fin y | None \<Rightarrow> PInf)
      else (case fl_pos (- x) of Some y \<Rightarrow> Fin (- y) | None \<Rightarrow> NInf))"

fun fneg :: "pyfloat \<Rightarrow> pyfloat" where
  "fneg (Fin a) = Fin (- a)"
| "fneg PInf = NInf"
| "fneg NInf = PInf"
| "fneg NaN = NaN"

fun fadd :: "pyfloat \<Rightarrow> pyfloat \<Rightarrow> pyfloat" where
  "fadd NaN _ = NaN"
| "fadd _ NaN = NaN"
| "fadd PInf NInf = NaN"
| "fadd NInf PInf = NaN"
| "fadd PInf _ = PInf"
| "fadd _ PInf = PInf"
| "fadd NInf _ = NInf"
| "fadd _ NInf = NInf"
| "fadd (Fin a) (Fin b) = fl (a + b)"

fun fmul :: "pyfloat \<Rightarrow> pyfloat \<Rightarrow> pyfloat" where
  "fmul NaN _ = NaN"
| "fmul _ NaN = NaN"
| "fmul (Fin a) (Fin b) = fl (a * b)"
| "fmul (Fin a) y = (if a = 0 then NaN else if 0 < a then y else fneg y)"
| "fmul x (Fin b) = (if b = 0 then NaN else if 0 < b then x else fneg x)"
| "fmul x y = (if x = y then PInf else NInf)"

text \<open>
  Python's \<open>/\<close> on floats raises \<open>ZeroDivisionError\<close> when the divisor is zero; every
  other case is the IEEE quotient.
\<close>

fun fdiv :: "pyfloat \<Rightarrow> pyfloat \<Rightarrow> error + pyfloat" where
  "fdiv NaN (Fin b) = (if b = 0 then Inl ZeroDivisionError else Inr NaN)"
| "fdiv NaN _ = Inr NaN"
| "fdiv _ NaN = Inr NaN"
| "fdiv (Fin a) (Fin b) = (if b = 0 then Inl ZeroDivisionError else Inr (fl (a / b)))"
| "fdiv (Fin a) _ = Inr (Fin 0)"
| "fdiv x (Fin b) =
     (if b = 0 then Inl ZeroDivisionError else Inr (if 0 < b then x else fneg x))"
| "fdiv _ _ = Inr NaN"

text \<open>
  An \<open>int\<close> operand of a float operation is converted first, correctly rounded;
  Python raises \<open>OverflowError\<close> when the integer is too large for a float.
\<close>

definition float_of_int :: "int \<Rightarrow> error + pyfloat" where
  "float_of_int n =
     (case fl (of_int n) of
        PInf \<Rightarrow> Inl OverflowError
      | NInf \<Rightarrow> Inl OverflowError
      | r \<Rightarrow> Inr r)"

text \<open>
  \<open>round(x, ndigits)\<close> on a float: NaN and the infinities round to themselves; a finite
  value is rounded to \<open>ndigits\<close> decimal places, ties to even, on its exact value, and
  the decimal result is converted to the nearest float. Python raises \<open>OverflowError\<close>
  when that result is too large for a float.
\<close>

definition py_round :: "pyfloat \<Rightarrow> int \<Rightarrow> error + pyfloat" where
  "py_round x n =
     (case x of
        Fin q \<Rightarrow>
          (case fl (of_int (round_half_even (q * pow10 n)) / pow10 n) of
             PInf \<Rightarrow> Inl OverflowError
           | NInf \<Rightarrow> Inl OverflowError
           | r \<Rightarrow> Inr r)
      | _ \<Rightarrow> Inr x)"

section \<open>LossTracker\<close>

text \<open>
  \<open>class LossTracker\<close>: \<open>u_loss\<close> is the attribute \<open>_loss\<close>. \<open>reset\<close> stores the
  integer \<open>0\<close> in \<open>_loss\<close>; every read of the attribute converts it to a float
  (\<open>float(self._loss)\<close>, or the float arithmetic of \<open>update\<close>), so the field holds the
  float \<open>0.0\<close> in the model.
\<close>

record LossTracker =
  ndigits :: int
  u_loss :: pyfloat
  loss_count :: int
  history :: "pyfloat list"

definition new_LossTracker :: "int \<Rightarrow> LossTracker" where
  "new_LossTracker n = \<lparr>ndigits = n, u_loss = Fin 0, loss_count = 0, history = []\<rparr>"

definition update :: "LossTracker \<Rightarrow> pyfloat \<Rightarrow> error + LossTracker" where
  "update t loss =
     (case float_of_int (loss_count t) of
        Inl e \<Rightarrow> Inl e
      | Inr c \<Rightarrow>
          (case float_of_int (loss_count t + 1) of
             Inl e \<Rightarrow> Inl e
           | Inr c1 \<Rightarrow>
               (case fdiv (fadd (fmul (u_loss t) c) loss) c1 of
                  Inl e \<Rightarrow> Inl e
                | Inr m \<Rightarrow> Inr (t\<lparr>u_loss := m, loss_count := loss_count t + 1\<rparr>))))"

definition reset :: "LossTracker \<Rightarrow> LossTracker" where
  "reset t = t\<lparr>u_loss := Fin 0, loss_count := 0\<rparr>"

definition loss :: "LossTracker \<Rightarrow> error + pyfloat" where
  "loss t = py_round (u_loss t) (ndigits t)"

definition on_epoch_end :: "LossTracker \<Rightarrow> bool \<Rightarrow> error + LossTracker" where
  "on_epoch_end t do_reset =
     (case loss t of
        Inl e \<Rightarrow> Inl e
      | Inr l \<Rightarrow>
          (let t' = t\<lparr>history := history t @ [l]\<rparr>
           in Inr (if do_reset then reset t' else t')))"

text \<open>
  Calling \<open>update\<close> once per value, in order, as the loop of \<open>evaluate\<close> does; the
  first exception ends the sequence.
\<close>

fun updates :: "LossTracker \<Rightarrow> pyfloat list \<Rightarrow> error + LossTracker" where
  "updates t [] = Inr t"
| "updates t (v # vs) = (case update t v of Inl e \<Rightarrow> Inl e | Inr t' \<Rightarrow> updates t' vs)"

text \<open>
  A rational is representable when rounding it to a float changes nothing. A run of
  updates from mean \<open>m\<close> and count \<open>c\<close> is exact when none of the float operations
  of any of its updates rounds.
\<close>

definition representable :: "rat \<Rightarrow> bool" where
  "representable q \<longleftrightarrow> fl q = Fin q"

fun exact_run :: "rat \<Rightarrow> int \<Rightarrow> rat list \<Rightarrow> bool" where
  "exact_run m c [] = True"
| "exact_run m c (v # vs) =
     (representable (of_int c) \<and> representable (of_int (c + 1)) \<and>
      representable (m * of_int c) \<and> representable (m * of_int c + v) \<and>
      representable ((m * of_int c + v) / of_int (c + 1)) \<and>
      exact_run ((m * of_int c + v) / of_int (c + 1)) (c + 1) vs)"


text \<open>
  Notions used to state how far the running mean can be from the arithmetic mean:
  \<open>eps\<close> is the unit roundoff \<open>2\<^sup>-\<^sup>5\<^sup>3\<close> of binary64; a value is a float when it is
  an infinity, NaN, or a finite value that rounding leaves unchanged; and
  \<open>near_mean m c S\<close> says that the mean \<open>m\<close> held after \<open>c\<close> updates, times \<open>c\<close>, is
  the sum \<open>S\<close> of the values up to the three roundings of each update.
\<close>

definition eps :: rat where
  "eps = 1 / 2 ^ 53"

definition is_float :: "pyfloat \<Rightarrow> bool" where
  "is_float x = (case x of Fin q \<Rightarrow> representable q | _ \<Rightarrow> True)"

definition near_mean :: "rat \<Rightarrow> int \<Rightarrow> rat \<Rightarrow> bool" where
  "near_mean m c S \<longleftrightarrow>
     S * (1 - eps) ^ (3 * nat c) \<le> m * of_int c \<and> m * of_int c \<le> S * (1 + eps) ^ (3 * nat c)"


section \<open>Checkpoint directories\<close>

subsection \<open>The sort key \<open>_inner\<close>\<close>

text \<open>
  \<open>_inner(folder)\<close> is
  \<^verbatim>\<open>list(map(int, re.findall(r'[\/]?([0-9]+)(?=[^\/]*$)', folder)))[0]\<close>.
  The pattern is an optional slash, a greedy non-empty run of ASCII digits (the group) and
  a lookahead; \<open>re.findall\<close> scans from the left, returns the group of every match and
  resumes after each match.
\<close>

definition is_digit :: "char \<Rightarrow> bool" where
  "is_digit c \<longleftrightarrow> c \<in> set ''0123456789''"

text \<open>
  The lookahead \<^verbatim>\<open>(?=[^\/]*$)\<close>: the greedy class consumes everything up to the first
  slash, and \<open>$\<close> then needs the end of the string. Giving characters back cannot help,
  since a slash would remain before the end.
\<close>

definition lookahead :: "string \<Rightarrow> bool" where
  "lookahead r \<longleftrightarrow> dropWhile (\<lambda>c. c \<noteq> CHR ''/'') r = []"

text \<open>
  \<^verbatim>\<open>([0-9]+)(?=[^\/]*$)\<close> at the start of \<open>s\<close>: the longest digit run first, then
  shorter ones, until the lookahead holds. The result is the group and the number of
  characters consumed.
\<close>

definition match_digits :: "string \<Rightarrow> (string \<times> nat) option" where
  "match_digits s =
     (case filter (\<lambda>k. lookahead (drop k s)) (rev [1..<Suc (length (takeWhile is_digit s))]) of
        [] \<Rightarrow> None
      | k # _ \<Rightarrow> Some (take k s, k))"

text \<open>The whole pattern at the start of \<open>s\<close>: the optional slash is tried first.\<close>

definition match_here :: "string \<Rightarrow> (string \<times> nat) option" where
  "match_here s =
     (case s of
        [] \<Rightarrow> None
      | c # s' \<Rightarrow>
          (if c = CHR ''/'' then
             (case match_digits s' of
                Some (g, k) \<Rightarrow> Some (g, Suc k)
              | None \<Rightarrow> match_digits s)
           else match_digits s))"

text \<open>
  \<open>findall_from n s\<close> scans \<open>s\<close> from the left after skipping the \<open>n\<close> characters
  that the previous match still covers.
\<close>

fun findall_from :: "nat \<Rightarrow> string \<Rightarrow> string list" where
  "findall_from _ [] = []"
| "findall_from (Suc n) (c # s) = findall_from n s"
| "findall_from 0 (c # s) =
     (case match_here (c # s) of
        Some (g, k) \<Rightarrow> g # findall_from (k - 1) s
      | None \<Rightarrow> findall_from 0 s)"

definition findall :: "string \<Rightarrow> string list" where
  "findall s = findall_from 0 s"

text \<open>\<open>int\<close> of a string of ASCII digits.\<close>

definition int_of_digits :: "string \<Rightarrow> int" where
  "int_of_digits ds = foldl (\<lambda>a c. 10 * a + (of_char c - 48)) 0 ds"

definition inner :: "string \<Rightarrow> error + int" where
  "inner folder =
     (case map int_of_digits (findall folder) of
        [] \<Rightarrow> Inl IndexError
      | k # _ \<Rightarrow> Inr k)"

text \<open>
  Notions used to state what the key is: the last component of a path (what follows its
  last slash), and the first and the last maximal run of digits of a string.
\<close>

definition last_component :: "string \<Rightarrow> string" where
  "last_component p = rev (takeWhile (\<lambda>c. c \<noteq> CHR ''/'') (rev p))"

definition first_number :: "string \<Rightarrow> string" where
  "first_number s = takeWhile is_digit (dropWhile (\<lambda>c. \<not> is_digit c) s)"

definition last_number :: "string \<Rightarrow> string" where
  "last_number s = rev (takeWhile is_digit (dropWhile (\<lambda>c. \<not> is_digit c) (rev s)))"

subsection \<open>Paths, the project configuration and the file system\<close>

text \<open>\<open>os.path.join\<close> of two POSIX paths.\<close>

definition path_join :: "string \<Rightarrow> string \<Rightarrow> string" where
  "path_join a b =
     (if b \<noteq> [] \<and> hd b = CHR ''/'' then b
      else if a = [] \<or> last a = CHR ''/'' then a @ b
      else a @ ''/'' @ b)"

text \<open>\<open>str\<close> of an integer, as the f-string \<^verbatim>\<open>f'checkpoint_{current_epoch-1}'\<close> formats it.\<close>

fun digits_of_nat :: "nat \<Rightarrow> string" where
  "digits_of_nat n =
     (if n < 10 then [char_of (48 + n)]
      else digits_of_nat (n div 10) @ [char_of (48 + n mod 10)])"

definition str_int :: "int \<Rightarrow> string" where
  "str_int i = (if i < 0 then CHR ''-'' # digits_of_nat (nat (- i)) else digits_of_nat (nat i))"

text \<open>The slice \<open>xs[:k]\<close>.\<close>

definition slice_to :: "'a list \<Rightarrow> int \<Rightarrow> 'a list" where
  "slice_to xs k = (if 0 \<le> k then take (nat k) xs else take (nat (int (length xs) + k)) xs)"

text \<open>
  The fields of the accelerator that \<open>get_checkpoint_dir\<close> reads or writes;
  \<open>accelerator.project_dir\<close> is the \<open>project_dir\<close> of the project configuration and is
  \<open>None\<close> when none was configured.
\<close>

record ProjectConfiguration =
  project_dir :: "string option"
  automatic_checkpoint_naming :: bool
  total_limit :: "int option"

record Accelerator =
  project_configuration :: ProjectConfiguration
  is_local_main_process :: bool

text \<open>
  The file system is the listing of \<open><project_dir>/checkpoints\<close>: \<open>None\<close> while the
  directory does not exist, otherwise its entries in the order \<open>os.listdir\<close> returns
  them. Entries are taken to be directories and the file system calls to succeed. The
  trace records the side effects of a call in the order they happen.
\<close>

datatype event =
    SetNaming bool
  | Makedirs string
  | Listdir string
  | Rmtree string

record world =
  accelerator :: Accelerator
  entries :: "string list option"
  trace :: "event list"

text \<open>
  The file system events of a trace: everything but the write to the project
  configuration.
\<close>

fun is_fs_event :: "event \<Rightarrow> bool" where
  "is_fs_event (SetNaming _) = False"
| "is_fs_event _ = True"

definition emit :: "event \<Rightarrow> world \<Rightarrow> world" where
  "emit e w = w\<lparr>trace := trace w @ [e]\<rparr>"

definition makedirs_root :: "string \<Rightarrow> world \<Rightarrow> world" where
  "makedirs_root output_dir w =
     emit (Makedirs output_dir)
       (w\<lparr>entries := Some (case entries w of None \<Rightarrow> [] | Some xs \<Rightarrow> xs)\<rparr>)"

definition listdir :: "world \<Rightarrow> string list" where
  "listdir w = (case entries w of None \<Rightarrow> [] | Some xs \<Rightarrow> xs)"

definition rmtree :: "string \<Rightarrow> string \<Rightarrow> world \<Rightarrow> world" where
  "rmtree output_dir folder w =
     emit (Rmtree folder)
       (w\<lparr>entries := Some (filter (\<lambda>f. path_join output_dir f \<noteq> folder) (listdir w))\<rparr>)"

definition makedirs_child :: "string \<Rightarrow> string \<Rightarrow> world \<Rightarrow> world" where
  "makedirs_child output_dir name w =
     emit (Makedirs (path_join output_dir name))
       (w\<lparr>entries := Some (if name \<in> set (listdir w) then listdir w else listdir w @ [name])\<rparr>)"

text \<open>
  \<open>folders.sort(key=_inner)\<close>: the keys of all folders are computed first, so an exception
  of \<open>_inner\<close> leaves everything in place; the sort is stable.
\<close>

fun keys_of :: "string list \<Rightarrow> error + (int \<times> string) list" where
  "keys_of [] = Inr []"
| "keys_of (f # fs) =
     (case inner f of
        Inl e \<Rightarrow> Inl e
      | Inr k \<Rightarrow> (case keys_of fs of Inl e \<Rightarrow> Inl e | Inr ks \<Rightarrow> Inr ((k, f) # ks)))"

definition sort_folders :: "string list \<Rightarrow> error + string list" where
  "sort_folders folders =
     (case keys_of folders of
        Inl e \<Rightarrow> Inl e
      | Inr ks \<Rightarrow> Inr (map snd (sort_key fst ks)))"

subsection \<open>\<open>Trainer.get_checkpoint_dir\<close>\<close>

definition set_naming :: "world \<Rightarrow> world" where
  "set_naming w =
     emit (SetNaming False)
       (w\<lparr>accelerator := (accelerator w)\<lparr>project_configuration :=
          (project_configuration (accelerator w))\<lparr>automatic_checkpoint_naming := False\<rparr>\<rparr>\<rparr>)"

text \<open>
  The first block guarded by \<open>is_local_main_process\<close>: create the root, list it, and
  delete the first \<open>len(folders) + 1 - total_limit\<close> folders in key order when a limit is
  configured and exceeded.
\<close>

definition prune :: "string \<Rightarrow> world \<Rightarrow> world \<times> (error + unit)" where
  "prune output_dir w =
     (let w1 = makedirs_root output_dir w;
          folders = map (path_join output_dir) (listdir w1);
          w2 = emit (Listdir output_dir) w1
      in case total_limit (project_configuration (accelerator w2)) of
           None \<Rightarrow> (w2, Inr ())
         | Some limit \<Rightarrow>
             if int (length folders) + 1 > limit then
               (case sort_folders folders of
                  Inl e \<Rightarrow> (w2, Inl e)
                | Inr ordered \<Rightarrow>
                    (fold (rmtree output_dir)
                       (slice_to ordered (int (length folders) + 1 - limit)) w2, Inr ()))
             else (w2, Inr ()))"

definition get_checkpoint_dir :: "world \<Rightarrow> int \<Rightarrow> world \<times> (error + string)" where
  "get_checkpoint_dir w current_epoch =
     (let w0 = set_naming w
      in case project_dir (project_configuration (accelerator w0)) of
           None \<Rightarrow> (w0, Inl TypeError)
         | Some pd \<Rightarrow>
             (let output_dir = path_join pd ''checkpoints'';
                  name = ''checkpoint_'' @ str_int (current_epoch - 1)
              in if is_local_main_process (accelerator w0) then
                   (case prune output_dir w0 of
                      (w1, Inl e) \<Rightarrow> (w1, Inl e)
                    | (w1, Inr _) \<Rightarrow>
                        (makedirs_child output_dir name w1, Inr (path_join output_dir name)))
                 else (w0, Inr (path_join output_dir name))))"

section \<open>Properties of the float model\<close>

lemma round_half_even_0 [simp]: "round_half_even 0 = 0"
  by (simp add: round_half_even_def)

lemma fl_0 [simp]: "fl 0 = Fin 0"
  by (simp add: fl_def)

lemma py_round_zero: "py_round (Fin 0) n = Inr (Fin 0)"
  by (simp add: py_round_def)

lemma pow2_powi: "pow2 e = 2 powi e"
  by (simp add: pow2_def power_int_def inverse_eq_divide power_one_over)

lemma pow2_pos: "0 < pow2 e"
  by (simp add: pow2_def)

lemma pow2_add: "pow2 (a + b) = pow2 a * pow2 b"
  by (simp add: pow2_powi power_int_add)

lemma pow2_less_iff: "pow2 a < pow2 b \<longleftrightarrow> a < b"
proof
  assume "pow2 a < pow2 b"
  show "a < b"
  proof (rule ccontr)
    assume "\<not> a < b"
    then have "b \<le> a" by simp
    then have "pow2 b \<le> pow2 a" unfolding pow2_powi by (rule power_int_increasing) simp
    with \<open>pow2 a < pow2 b\<close> show False by simp
  qed
next
  assume "a < b"
  then show "pow2 a < pow2 b" unfolding pow2_powi by (rule power_int_strict_increasing) simp
qed

lemma pow2_le_iff: "pow2 a \<le> pow2 b \<longleftrightarrow> a \<le> b"
  using pow2_less_iff[of b a] by (auto simp: not_less[symmetric])

lemma pow2_nat: "0 \<le> e \<Longrightarrow> pow2 e = 2 ^ nat e"
  by (simp add: pow2_def)

lemma ilog2_bounds:
  assumes "0 < x"
  shows "pow2 (ilog2 x) \<le> x \<and> x < pow2 (ilog2 x + 1)"
proof (cases "1 \<le> x")
  case True
  let ?n = "\<lfloor>x\<rfloor>"
  have n: "0 < ?n" using True by linarith
  have b1: "1 \<le> bitlen ?n" using n by (simp add: bitlen_alt_def)
  have il: "ilog2 x = bitlen ?n - 1" using True by (simp add: ilog2_def)
  from bitlen_bounds[OF n] have lo: "2 ^ nat (bitlen ?n - 1) \<le> ?n" and hi: "?n < 2 ^ nat (bitlen ?n)"
    by simp_all
  from lo have "(2::rat) ^ nat (bitlen ?n - 1) \<le> of_int ?n"
    by (metis of_int_le_iff of_int_numeral of_int_power)
  also have "\<dots> \<le> x" by simp
  finally have 1: "pow2 (ilog2 x) \<le> x" using b1 by (simp add: il pow2_nat)
  from hi have "?n + 1 \<le> 2 ^ nat (bitlen ?n)" by simp
  then have "(of_int (?n + 1) :: rat) \<le> of_int (2 ^ nat (bitlen ?n))"
    by (simp only: of_int_le_iff)
  moreover have "x < of_int (?n + 1)" by linarith
  ultimately have "x < 2 ^ nat (bitlen ?n)" by simp
  then have 2: "x < pow2 (ilog2 x + 1)" using b1 by (simp add: il pow2_nat)
  from 1 2 show ?thesis ..
next
  case False
  let ?m = "\<lceil>1 / x\<rceil> - 1"
  from False assms have ix: "1 < 1 / x" by (simp add: less_divide_eq)
  then have m: "0 < ?m" by linarith
  have b1: "1 \<le> bitlen ?m" using m by (simp add: bitlen_alt_def)
  have il: "ilog2 x = - bitlen ?m" using False by (simp add: ilog2_def)
  from bitlen_bounds[OF m] have lo: "2 ^ nat (bitlen ?m - 1) \<le> ?m" and hi: "?m < 2 ^ nat (bitlen ?m)"
    by simp_all
  from hi have "\<lceil>1 / x\<rceil> \<le> 2 ^ nat (bitlen ?m)" by simp
  then have "(of_int \<lceil>1 / x\<rceil> :: rat) \<le> of_int (2 ^ nat (bitlen ?m))"
    by (simp only: of_int_le_iff)
  then have "(of_int \<lceil>1 / x\<rceil> :: rat) \<le> 2 ^ nat (bitlen ?m)" by simp
  moreover have "1 / x \<le> of_int \<lceil>1 / x\<rceil>" by (rule le_of_int_ceiling)
  ultimately have "1 / x \<le> 2 ^ nat (bitlen ?m)" by (rule order_trans[rotated])
  then have "1 / 2 ^ nat (bitlen ?m) \<le> x"
    using assms by (simp add: field_simps)
  then have 1: "pow2 (ilog2 x) \<le> x" using b1 by (simp add: il pow2_def)
  from lo have "(2::rat) ^ nat (bitlen ?m - 1) \<le> of_int ?m"
    by (metis of_int_le_iff of_int_numeral of_int_power)
  also have "of_int ?m < 1 / x" by linarith
  finally have "x < 1 / 2 ^ nat (bitlen ?m - 1)"
    using assms by (simp add: field_simps)
  moreover have "pow2 (ilog2 x + 1) = 1 / 2 ^ nat (bitlen ?m - 1)"
    using b1 by (auto simp add: il pow2_def)
  ultimately have 2: "x < pow2 (ilog2 x + 1)" by simp
  from 1 2 show ?thesis ..
qed

lemma ilog2_unique:
  assumes "0 < x" "pow2 e \<le> x" "x < pow2 (e + 1)"
  shows "ilog2 x = e"
proof -
  from ilog2_bounds[OF assms(1)] have a: "pow2 (ilog2 x) \<le> x" and b: "x < pow2 (ilog2 x + 1)"
    by simp_all
  from a assms(3) have "pow2 (ilog2 x) < pow2 (e + 1)" by simp
  then have "ilog2 x < e + 1" by (simp add: pow2_less_iff)
  moreover from b assms(2) have "pow2 e < pow2 (ilog2 x + 1)" by simp
  then have "e < ilog2 x + 1" by (simp add: pow2_less_iff)
  ultimately show ?thesis by simp
qed

lemma round_half_even_ge_floor: "\<lfloor>x\<rfloor> \<le> round_half_even x"
  by (simp add: round_half_even_def Let_def)

lemma fl_pos_ge1:
  assumes "1 \<le> x" "fl_pos x = Some y"
  shows "0 < y"
proof -
  have x: "0 < x" using assms(1) by simp
  let ?e = "ilog2 x"
  from ilog2_bounds[OF x] have lo: "pow2 ?e \<le> x" and hi: "x < pow2 (?e + 1)"
    by simp_all
  from hi assms(1) have "pow2 0 < pow2 (?e + 1)" by (simp add: pow2_def)
  then have e0: "0 \<le> ?e" by (simp add: pow2_less_iff)
  let ?u = "pow2 (?e - 52)"
  have "?u \<le> pow2 ?e" by (simp add: pow2_le_iff)
  with lo have "?u \<le> x" by simp
  then have "1 \<le> x / ?u" using pow2_pos[of "?e - 52"] by (simp add: le_divide_eq)
  then have "1 \<le> \<lfloor>x / ?u\<rfloor>" by linarith
  then have r: "0 < round_half_even (x / ?u)"
    using round_half_even_ge_floor[of "x / ?u"] by linarith
  have "max ?e (- 1022) = ?e" using e0 by simp
  then have "y = of_int (round_half_even (x / ?u)) * ?u"
    using assms(2) by (simp add: fl_pos_def Let_def split: if_splits)
  then show ?thesis using r pow2_pos[of "?e - 52"] by simp
qed

lemma float_of_int_pos: assumes "1 \<le> n" "float_of_int n = Inr c" shows "\<exists>q. c = Fin q \<and> 0 < q"
proof -
  have x: "(1::rat) \<le> of_int n" using assms(1) by simp
  then have nz: "(of_int n :: rat) \<noteq> 0" "(0::rat) < of_int n" by linarith+
  show ?thesis
  proof (cases "fl_pos (of_int n)")
    case None
    then show ?thesis using assms(2) nz by (simp add: float_of_int_def fl_def)
  next
    case (Some y)
    then have "c = Fin y" using assms(2) nz by (simp add: float_of_int_def fl_def)
    with fl_pos_ge1[OF x Some] show ?thesis by simp
  qed
qed

lemma fdiv_pos: "0 < q \<Longrightarrow> fdiv a (Fin q) \<noteq> Inl e"
  by (cases a) auto

lemma float_of_int_err: "float_of_int n = Inl e \<Longrightarrow> e = OverflowError"
  by (auto simp: float_of_int_def split: pyfloat.splits)

lemma py_round_err: "py_round x n = Inl e \<Longrightarrow> e = OverflowError"
  by (auto simp: py_round_def split: pyfloat.splits)

lemma round_half_even_of_int [simp]: "round_half_even (of_int j) = j"
  by (simp add: round_half_even_def)

lemma fl_pos_at:
  assumes "0 < x" "pow2 e \<le> x" "x < pow2 (e + 1)"
  shows "fl_pos x =
     (let u = pow2 (max e (- 1022) - 52); y = of_int (round_half_even (x / u)) * u
      in if y < pow2 1024 then Some y else None)"
  by (simp add: fl_pos_def ilog2_unique[OF assms])

lemma fl_pos_exact:
  assumes m: "0 < m" "m < 2 ^ 53" and k: "- 1074 \<le> k" "k \<le> 971"
  shows "fl_pos (of_int m * pow2 k) = Some (of_int m * pow2 k)"
proof -
  let ?x = "of_int m * pow2 k :: rat"
  have x: "0 < ?x" using m(1) pow2_pos[of k] by simp
  have "(of_int m :: rat) < of_int (2 ^ 53)" using m(2) by (simp only: of_int_less_iff)
  then have "(of_int m :: rat) < pow2 53" by (simp add: pow2_def)
  then have "?x < pow2 53 * pow2 k" using pow2_pos[of k] by simp
  then have xlt: "?x < pow2 (k + 53)" by (simp add: pow2_add mult.commute)
  from ilog2_bounds[OF x] have "pow2 (ilog2 ?x) \<le> ?x" by simp
  with xlt have "pow2 (ilog2 ?x) < pow2 (k + 53)" by simp
  then have e: "ilog2 ?x \<le> k + 52" by (simp add: pow2_less_iff)
  define d where "d = k - (max (ilog2 ?x) (- 1022) - 52)"
  have d0: "0 \<le> d" using e k(1) by (simp add: d_def)
  let ?u = "pow2 (max (ilog2 ?x) (- 1022) - 52)"
  have "pow2 k = pow2 d * ?u" by (simp add: d_def flip: pow2_add)
  then have xu: "?x = of_int (m * 2 ^ nat d) * ?u" using d0 by (simp add: pow2_nat)
  have "?x / ?u = of_int (m * 2 ^ nat d)"
    using pow2_pos[of "max (ilog2 ?x) (- 1022) - 52"] by (subst xu) simp
  then have r: "of_int (round_half_even (?x / ?u)) * ?u = ?x"
    by (simp only: round_half_even_of_int xu[symmetric])
  have "pow2 (k + 53) \<le> pow2 1024" using k(2) by (simp add: pow2_le_iff)
  with xlt have "?x < pow2 1024" by simp
  with r show ?thesis by (simp add: fl_pos_def Let_def)
qed

lemma fl_exact:
  assumes "\<bar>m\<bar> < 2 ^ 53" "- 1074 \<le> k" "k \<le> 971"
  shows "fl (of_int m * pow2 k) = Fin (of_int m * pow2 k)"
proof -
  consider "m = 0" | "0 < m" | "m < 0" by linarith
  then show ?thesis
  proof cases
    case 1
    then show ?thesis by simp
  next
    case 2
    then have "0 < (of_int m * pow2 k :: rat)" using pow2_pos[of k] by simp
    moreover have "m < 2 ^ 53" using assms(1) by simp
    ultimately show ?thesis using fl_pos_exact[OF 2 _ assms(2,3)] by (simp add: fl_def)
  next
    case 3
    then have neg: "(of_int m * pow2 k :: rat) < 0" using pow2_pos[of k] by (simp add: mult_less_0_iff)
    have "0 < - m" "- m < 2 ^ 53" using 3 assms(1) by simp_all
    from fl_pos_exact[OF this assms(2,3)] show ?thesis using neg by (simp add: fl_def)
  qed
qed

lemma fl_int: "\<bar>n\<bar> < 2 ^ 53 \<Longrightarrow> fl (of_int n) = Fin (of_int n)"
  using fl_exact[of n 0] by (simp add: pow2_def)

lemma round_half_even_div:
  assumes "0 < b"
  shows "round_half_even (of_int a / of_int b) =
     (let q = a div b; r = a mod b
      in if 2 * r < b then q else if b < 2 * r then q + 1 else if even q then q else q + 1)"
proof -
  have f: "\<lfloor>(of_int a / of_int b :: rat)\<rfloor> = a div b" by (rule floor_divide_of_int_eq)
  have b: "(0::rat) < of_int b" using assms by simp
  have e: "(of_int a :: rat) = of_int b * of_int (a div b) + of_int (a mod b)"
    by (simp only: of_int_mult[symmetric] of_int_add[symmetric] mult_div_mod_eq)
  have "(of_int b * of_int (a div b) + of_int (a mod b)) / of_int b - of_int (a div b)
      = (of_int (a mod b) / of_int b :: rat)"
    using b by (simp add: field_simps)
  then have d': "(of_int a :: rat) / of_int b - of_int (a div b) = of_int (a mod b) / of_int b"
    by (simp only: e[symmetric])
  then have d: "(of_int a :: rat) / of_int b - of_int \<lfloor>(of_int a / of_int b :: rat)\<rfloor>
      = of_int (a mod b) / of_int b"
    by (simp only: f)
  have lt: "(of_int (a mod b) / of_int b < (1::rat) / 2) = (2 * (a mod b) < b)"
  proof -
    have "(of_int (a mod b) / of_int b < (1::rat) / 2) = ((of_int (2 * (a mod b)) :: rat) < of_int b)"
      using b by (simp add: field_simps)
    also have "\<dots> = (2 * (a mod b) < b)" by (simp only: of_int_less_iff)
    finally show ?thesis .
  qed
  have gt: "((1::rat) / 2 < of_int (a mod b) / of_int b) = (b < 2 * (a mod b))"
  proof -
    have "((1::rat) / 2 < of_int (a mod b) / of_int b) = ((of_int b :: rat) < of_int (2 * (a mod b)))"
      using b by (simp add: field_simps)
    also have "\<dots> = (b < 2 * (a mod b))" by (simp only: of_int_less_iff)
    finally show ?thesis .
  qed
  show ?thesis
    by (simp only: round_half_even_def Let_def f d' lt gt)
qed

lemma round_half_even_numeral_div [simp]:
  "round_half_even (numeral a / numeral b) =
     (let q = numeral a div numeral b; r = numeral a mod numeral b :: int
      in if 2 * r < numeral b then q else if numeral b < 2 * r then q + 1
         else if even q then q else q + 1)"
  using round_half_even_div[of "numeral b" "numeral a"] by simp

lemma round_half_even_numeral [simp]: "round_half_even (numeral a) = numeral a"
  using round_half_even_of_int[of "numeral a"] by simp

lemma round_half_even_1 [simp]: "round_half_even 1 = 1"
  using round_half_even_of_int[of 1] by simp

lemma fl_eval:
  assumes "0 < x" "pow2 e \<le> x" "x < pow2 (e + 1)"
  shows "fl x =
     (let u = pow2 (max e (- 1022) - 52); y = of_int (round_half_even (x / u)) * u
      in if y < pow2 1024 then Fin y else PInf)"
  using assms(1) by (simp add: fl_def fl_pos_at[OF assms] Let_def)

section \<open>Properties of LossTracker\<close>

lemma representable_int: "\<bar>n\<bar> < 2 ^ 53 \<Longrightarrow> representable (of_int n)"
  by (simp add: representable_def fl_int)

lemma representable_0 [simp]: "representable 0"
  by (simp add: representable_def)

lemma representable_1 [simp]: "representable 1"
  using representable_int[of 1] by simp

lemma representable_numeral: "numeral k < (2::int) ^ 53 \<Longrightarrow> representable (numeral k)"
  using representable_int[of "numeral k"] by simp

lemma float_of_int_representable:
  "representable (of_int n) \<Longrightarrow> float_of_int n = Inr (Fin (of_int n))"
  by (simp add: float_of_int_def representable_def)

lemma update_exact:
  assumes "u_loss t = Fin m" "loss_count t = c" "0 \<le> c"
    and "representable (of_int c)" "representable (of_int (c + 1))"
    and "representable (m * of_int c)" "representable (m * of_int c + v)"
    and "representable ((m * of_int c + v) / of_int (c + 1))"
  shows "update t (Fin v) =
     Inr (t\<lparr>u_loss := Fin ((m * of_int c + v) / of_int (c + 1)), loss_count := c + 1\<rparr>)"
proof -
  have "c + 1 \<noteq> 0" using assms(3) by simp
  then have nz: "(of_int (c + 1) :: rat) \<noteq> 0" by (simp only: of_int_eq_0_iff not_False_eq_True)
  have a: "fmul (Fin m) (Fin (of_int c)) = Fin (m * of_int c)"
    using assms(6) by (simp add: representable_def)
  have b: "fadd (Fin (m * of_int c)) (Fin v) = Fin (m * of_int c + v)"
    using assms(7) by (simp add: representable_def)
  have d: "fdiv (Fin (m * of_int c + v)) (Fin (of_int (c + 1)))
      = Inr (Fin ((m * of_int c + v) / of_int (c + 1)))"
    using assms(8) nz by (simp add: representable_def)
  show ?thesis
    unfolding update_def assms(1,2)
      float_of_int_representable[OF assms(4)] float_of_int_representable[OF assms(5)]
    by (simp only: sum.case a b d)
qed

lemma updates_exact:
  assumes "exact_run m c vs" "u_loss t = Fin m" "loss_count t = c" "0 \<le> c"
  shows "\<exists>t'. updates t (map Fin vs) = Inr t' \<and>
     loss_count t' = c + int (length vs) \<and>
     u_loss t' = Fin (if vs = [] then m
                      else (m * of_int c + sum_list vs) / of_int (c + int (length vs))) \<and>
     history t' = history t \<and> ndigits t' = ndigits t"
  using assms
proof (induction vs arbitrary: m c t)
  case Nil
  then show ?case by simp
next
  case (Cons v vs)
  let ?m = "(m * of_int c + v) / of_int (c + 1)"
  let ?t = "t\<lparr>u_loss := Fin ?m, loss_count := c + 1\<rparr>"
  from Cons.prems(1) have ex: "exact_run ?m (c + 1) vs" by simp
  have u: "update t (Fin v) = Inr ?t"
    using Cons.prems by (intro update_exact) simp_all
  have "\<exists>t'. updates ?t (map Fin vs) = Inr t' \<and>
     loss_count t' = c + 1 + int (length vs) \<and>
     u_loss t' = Fin (if vs = [] then ?m
        else (?m * of_int (c + 1) + sum_list vs) / of_int (c + 1 + int (length vs))) \<and>
     history t' = history ?t \<and> ndigits t' = ndigits ?t"
    by (rule Cons.IH[OF ex]) (use Cons.prems(4) in simp_all)
  then obtain t' where t': "updates ?t (map Fin vs) = Inr t'"
    "loss_count t' = c + 1 + int (length vs)"
    "u_loss t' = Fin (if vs = [] then ?m
        else (?m * of_int (c + 1) + sum_list vs) / of_int (c + 1 + int (length vs)))"
    "history t' = history t" "ndigits t' = ndigits t"
    by auto
  have "c + 1 \<noteq> 0" using Cons.prems(4) by simp
  then have nz: "(of_int (c + 1) :: rat) \<noteq> 0"
    by (simp only: of_int_eq_0_iff not_False_eq_True)
  then have mm: "?m * of_int (c + 1) = m * of_int c + v" by simp
  have "u_loss t' = Fin ((m * of_int c + sum_list (v # vs)) / of_int (c + int (length (v # vs))))"
  proof (cases "vs = []")
    case True
    then show ?thesis using t'(3) by simp
  next
    case False
    then show ?thesis using t'(3) by (simp only: mm if_False) (simp add: add.assoc)
  qed
  with t' u show ?case by simp
qed

lemma fl_numeral: "numeral k < (2::int) ^ 53 \<Longrightarrow> fl (numeral k) = Fin (numeral k)"
  using fl_int[of "numeral k"] by simp

lemma fl_1 [simp]: "fl 1 = Fin 1"
  using fl_int[of 1] by simp

lemma pow2_split: "c = a + b \<Longrightarrow> pow2 c = pow2 a * pow2 b"
  by (simp add: pow2_add)

lemma round_half_even_bounds:
  "x - 1 / 2 \<le> of_int (round_half_even x) \<and> of_int (round_half_even x) \<le> x + 1 / 2"
proof -
  have a: "of_int \<lfloor>x\<rfloor> \<le> x" and b: "x < of_int \<lfloor>x\<rfloor> + 1" by linarith+
  show ?thesis
    apply (auto simp add: round_half_even_def Let_def)
    using a b by linarith+
qed

lemma round_half_even_mono:
  assumes "x \<le> y"
  shows "round_half_even x \<le> round_half_even y"
proof (cases "\<lfloor>x\<rfloor> = \<lfloor>y\<rfloor>")
  case True
  with assms have "x - of_int \<lfloor>x\<rfloor> \<le> y - of_int \<lfloor>y\<rfloor>" by simp
  then show ?thesis using True by (auto simp add: round_half_even_def Let_def)
next
  case False
  with floor_mono[OF assms] have "\<lfloor>x\<rfloor> + 1 \<le> \<lfloor>y\<rfloor>" by simp
  moreover have "round_half_even x \<le> \<lfloor>x\<rfloor> + 1" by (simp add: round_half_even_def Let_def)
  ultimately show ?thesis using round_half_even_ge_floor[of y] by linarith
qed

lemma round_half_even_between:
  assumes "lo \<le> x" "x \<le> hi" "round_half_even lo = round_half_even hi"
  shows "round_half_even x = round_half_even lo"
  using round_half_even_mono[OF assms(1)] round_half_even_mono[OF assms(2)] assms(3) by simp

text \<open>The shape of a rounded positive value.\<close>

lemma fl_pos_shape:
  assumes "0 < x"
  defines "e \<equiv> max (ilog2 x) (- 1022)"
  defines "k \<equiv> round_half_even (x / pow2 (e - 52))"
  shows "fl_pos x = (if of_int k * pow2 (e - 52) < pow2 1024 then Some (of_int k * pow2 (e - 52)) else None)"
    and "0 \<le> k" and "k \<le> 2 ^ 53"
    and "\<bar>of_int k * pow2 (e - 52) - x\<bar> \<le> pow2 (e - 53)"
    and "- 1022 \<le> ilog2 x \<Longrightarrow> 2 ^ 52 \<le> k"
proof -
  let ?u = "pow2 (e - 52)"
  have u: "0 < ?u" by (rule pow2_pos)
  show "fl_pos x = (if of_int k * ?u < pow2 1024 then Some (of_int k * ?u) else None)"
    by (simp add: fl_pos_def Let_def e_def k_def)
  have "0 \<le> x / ?u" using assms(1) u by simp
  from round_half_even_mono[OF this] show "0 \<le> k" by (simp add: k_def)
  from ilog2_bounds[OF assms(1)] have lo: "pow2 (ilog2 x) \<le> x" and hi: "x < pow2 (ilog2 x + 1)"
    by simp_all
  have "pow2 (ilog2 x + 1) \<le> pow2 (e + 1)" by (simp add: pow2_le_iff e_def)
  with hi have "x < pow2 (e + 1)" by simp
  also have "pow2 (e + 1) = pow2 53 * ?u" by (rule pow2_split) simp
  finally have "x / ?u \<le> pow2 53" using u by (simp add: pos_divide_le_eq)
  then have "x / ?u \<le> of_int (2 ^ 53)" by (simp add: pow2_def)
  from round_half_even_mono[OF this] show "k \<le> 2 ^ 53"
    by (simp only: k_def round_half_even_of_int)
  from round_half_even_bounds[of "x / ?u"]
  have "\<bar>of_int k - x / ?u\<bar> \<le> 1 / 2" unfolding k_def by linarith
  then have "\<bar>of_int k - x / ?u\<bar> * ?u \<le> 1 / 2 * ?u" using u by (simp only: mult_le_cancel_right_pos)
  moreover have "\<bar>of_int k - x / ?u\<bar> * ?u = \<bar>of_int k * ?u - x\<bar>"
  proof -
    have "\<bar>of_int k - x / ?u\<bar> * ?u = \<bar>(of_int k - x / ?u) * ?u\<bar>" using u by (simp add: abs_mult)
    also have "(of_int k - x / ?u) * ?u = of_int k * ?u - x" using u by (simp add: field_simps)
    finally show ?thesis .
  qed
  moreover have "1 / 2 * ?u = pow2 (e - 53)"
  proof -
    have "pow2 (e - 53) = pow2 (- 1) * pow2 (e - 52)" by (rule pow2_split) simp
    then show ?thesis by (simp add: pow2_def)
  qed
  ultimately show "\<bar>of_int k * ?u - x\<bar> \<le> pow2 (e - 53)" by simp
  show "2 ^ 52 \<le> k" if "- 1022 \<le> ilog2 x"
  proof -
    from that have ee: "e = ilog2 x" by (simp add: e_def)
    have "pow2 e = pow2 52 * ?u" by (rule pow2_split) simp
    with lo have "pow2 52 * ?u \<le> x" by (simp add: ee)
    then have "pow2 52 \<le> x / ?u" using u by (simp add: pos_le_divide_eq)
    then have "of_int (2 ^ 52) \<le> x / ?u" by (simp add: pow2_def)
    from round_half_even_mono[OF this] show ?thesis
      by (simp only: k_def round_half_even_of_int)
  qed
qed

lemma fl_pos_mantissa:
  assumes "0 < x" "fl_pos x = Some y"
  shows "\<exists>m j. y = of_int m * pow2 j \<and> 0 \<le> m \<and> m < 2 ^ 53 \<and> - 1074 \<le> j \<and> j \<le> 971"
proof -
  define e where "e = max (ilog2 x) (- 1022)"
  define k where "k = round_half_even (x / pow2 (e - 52))"
  note s = fl_pos_shape[OF assms(1), folded e_def k_def]
  from s(1) assms(2) have y: "y = of_int k * pow2 (e - 52)" and lt: "y < pow2 1024"
    by (simp_all split: if_splits)
  have e1: "- 1022 \<le> e" by (simp add: e_def)
  show ?thesis
  proof (cases "k = 0")
    case True
    then have "y = of_int 0 * pow2 0" using y by simp
    then show ?thesis by (intro exI[of _ 0] exI[of _ 0]) simp
  next
    case False
    with s(2) have kpos: "0 < k" by simp
    have ele: "e \<le> 1023"
    proof (cases "- 1022 \<le> ilog2 x")
      case True
      from s(5)[OF True] have "(of_int (2 ^ 52) :: rat) \<le> of_int k" by (simp only: of_int_le_iff)
      then have "pow2 52 \<le> of_int k" by (simp add: pow2_def)
      then have "pow2 52 * pow2 (e - 52) \<le> of_int k * pow2 (e - 52)"
        using pow2_pos[of "e - 52"] by (simp only: mult_le_cancel_right_pos)
      moreover have "pow2 e = pow2 52 * pow2 (e - 52)" by (rule pow2_split) simp
      ultimately have "pow2 e \<le> y" by (simp only: y)
      with lt have "pow2 e < pow2 1024" by simp
      then show ?thesis by (simp add: pow2_less_iff)
    next
      case False
      then show ?thesis by (simp add: e_def)
    qed
    show ?thesis
    proof (cases "k = 2 ^ 53")
      case True
      have "y = pow2 53 * pow2 (e - 52)" using y True by (simp add: pow2_def)
      moreover have "pow2 (e + 1) = pow2 53 * pow2 (e - 52)" by (rule pow2_split) simp
      ultimately have y2: "y = pow2 (e + 1)" by simp
      with lt have "e + 1 < 1024" by (simp add: pow2_less_iff)
      moreover have "pow2 (e + 1) = pow2 52 * pow2 (e - 51)" by (rule pow2_split) simp
      then have "y = pow2 52 * pow2 (e - 51)" by (simp only: y2)
      then have "y = of_int (2 ^ 52) * pow2 (e - 51)" by (simp add: pow2_def)
      ultimately show ?thesis using e1
        by (intro exI[of _ "2 ^ 52"] exI[of _ "e - 51"]) simp
    next
      case False
      with s(3) have "k < 2 ^ 53" by simp
      then show ?thesis using y s(2) e1 ele
        by (intro exI[of _ k] exI[of _ "e - 52"]) simp
    qed
  qed
qed

lemma fl_representable:
  assumes "fl x = Fin y"
  shows "representable y"
proof -
  consider "x = 0" | "0 < x" | "x < 0" by linarith
  then show ?thesis
  proof cases
    case 1
    then show ?thesis using assms by auto
  next
    case 2
    then have "fl_pos x = Some y" using assms by (simp add: fl_def split: option.splits)
    from fl_pos_mantissa[OF 2 this] obtain m j where
      "y = of_int m * pow2 j" "0 \<le> m" "m < 2 ^ 53" "- 1074 \<le> j" "j \<le> 971" by blast
    then show ?thesis using fl_exact[of m j] by (simp add: representable_def)
  next
    case 3
    then have x: "0 < - x" by simp
    from 3 assms obtain z where z: "fl_pos (- x) = Some z" "y = - z"
      by (auto simp add: fl_def split: option.splits)
    from fl_pos_mantissa[OF x z(1)] obtain m j where
      "z = of_int m * pow2 j" "0 \<le> m" "m < 2 ^ 53" "- 1074 \<le> j" "j \<le> 971" by blast
    then show ?thesis using fl_exact[of "- m" j] z(2) by (simp add: representable_def)
  qed
qed

lemma fl_finite_pos:
  assumes "0 < x" "x < pow2 1023"
  shows "\<exists>y. fl_pos x = Some y"
proof -
  define e where "e = max (ilog2 x) (- 1022)"
  define k where "k = round_half_even (x / pow2 (e - 52))"
  note s = fl_pos_shape[OF assms(1), folded e_def k_def]
  from ilog2_bounds[OF assms(1)] assms(2) have "pow2 (ilog2 x) < pow2 1023" by simp
  then have "ilog2 x < 1023" by (simp add: pow2_less_iff)
  then have e: "e \<le> 1022" by (simp add: e_def)
  have "(of_int k :: rat) \<le> of_int (2 ^ 53)" using s(3) by (simp only: of_int_le_iff)
  then have "of_int k \<le> pow2 53" by (simp add: pow2_def)
  then have "of_int k * pow2 (e - 52) \<le> pow2 53 * pow2 (e - 52)"
    using pow2_pos[of "e - 52"] by (simp only: mult_le_cancel_right_pos)
  also have "\<dots> = pow2 (e + 1)" by (rule pow2_split[symmetric]) simp
  also have "\<dots> < pow2 1024" using e by (simp add: pow2_less_iff)
  finally show ?thesis using s(1) by simp
qed

lemma fl_finite:
  assumes "\<bar>x\<bar> < pow2 1023"
  shows "\<exists>y. fl x = Fin y"
proof -
  consider "x = 0" | "0 < x" | "x < 0" by linarith
  then show ?thesis
  proof cases
    case 1
    then show ?thesis by simp
  next
    case 2
    with assms fl_finite_pos[of x] show ?thesis by (auto simp add: fl_def)
  next
    case 3
    with assms fl_finite_pos[of "- x"] show ?thesis by (auto simp add: fl_def)
  qed
qed

text \<open>Rounding a value of the normal range changes it by a factor within \<open>1 \<plusminus> eps\<close>.\<close>

lemma fl_rel:
  assumes "pow2 (- 1022) \<le> x" "x < pow2 1023"
  shows "\<exists>y. fl x = Fin y \<and> x * (1 - eps) \<le> y \<and> y \<le> x * (1 + eps)"
proof -
  have x: "0 < x" using assms(1) pow2_pos[of "- 1022"] by linarith
  define e where "e = max (ilog2 x) (- 1022)"
  define k where "k = round_half_even (x / pow2 (e - 52))"
  note s = fl_pos_shape[OF x, folded e_def k_def]
  from ilog2_bounds[OF x] have lo: "pow2 (ilog2 x) \<le> x" and hi: "x < pow2 (ilog2 x + 1)"
    by simp_all
  from assms(1) hi have "pow2 (- 1022) < pow2 (ilog2 x + 1)" by simp
  then have "- 1022 \<le> ilog2 x" by (simp add: pow2_less_iff)
  then have ee: "e = ilog2 x" by (simp add: e_def)
  from fl_finite_pos[OF x assms(2)] s(1) have y: "fl_pos x = Some (of_int k * pow2 (e - 52))"
    by (simp split: if_splits)
  have "pow2 (e - 53) = pow2 e * pow2 (- 53)" by (rule pow2_split) simp
  also have "\<dots> = pow2 e * eps" by (simp add: pow2_def eps_def)
  also have "\<dots> \<le> x * eps" using lo by (simp add: ee eps_def)
  finally have "\<bar>of_int k * pow2 (e - 52) - x\<bar> \<le> x * eps" using s(4) by simp
  then have "x * (1 - eps) \<le> of_int k * pow2 (e - 52) \<and> of_int k * pow2 (e - 52) \<le> x * (1 + eps)"
    by (simp add: abs_le_iff algebra_simps)
  then show ?thesis using y x by (simp add: fl_def)
qed

lemma fl_rel0:
  assumes "x = 0 \<or> pow2 (- 1022) \<le> x" "x < pow2 1023"
  shows "\<exists>y. fl x = Fin y \<and> x * (1 - eps) \<le> y \<and> y \<le> x * (1 + eps)"
  using assms fl_rel[of x] by auto

lemma eps_bounds: "0 < eps" "eps < 1" "0 \<le> 1 - eps" "1 - eps \<le> 1" "1 \<le> 1 + eps"
  by (simp_all add: eps_def)

lemma pow10_pos: "0 < pow10 n"
  by (simp add: pow10_def)

lemma is_float_fl [simp]: "is_float (fl x)"
  by (cases "fl x") (simp_all add: is_float_def fl_representable)

lemma is_float_simps [simp]:
  "is_float PInf" "is_float NInf" "is_float NaN" "is_float (Fin 0)"
  by (simp_all add: is_float_def)

lemma fdiv_is_float: "fdiv a b = Inr r \<Longrightarrow> is_float r"
  by (cases a; cases b) (auto split: if_splits)

lemma update_is_float: "update s v = Inr s' \<Longrightarrow> is_float (u_loss s')"
  by (auto simp add: update_def split: sum.splits dest: fdiv_is_float)

lemma updates_is_float:
  "updates s xs = Inr s' \<Longrightarrow> is_float (u_loss s) \<Longrightarrow> is_float (u_loss s')"
proof (induction xs arbitrary: s)
  case Nil
  then show ?case by simp
next
  case (Cons x xs)
  then show ?case by (auto split: sum.splits dest: update_is_float)
qed

lemma representable_large_int:
  assumes "representable q" "2 ^ 53 \<le> \<bar>q\<bar>"
  shows "\<exists>j. q = of_int j"
proof -
  have main: "\<exists>j. z = of_int j" if z: "0 < z" "fl_pos z = Some z" "2 ^ 53 \<le> z" for z
  proof -
    from fl_pos_mantissa[OF z(1,2)] obtain m j where
      mj: "z = of_int m * pow2 j" "0 \<le> m" "m < 2 ^ 53" "- 1074 \<le> j" "j \<le> 971" by blast
    have "0 < j"
    proof (rule ccontr)
      assume "\<not> 0 < j"
      then have "pow2 j \<le> pow2 0" by (simp add: pow2_le_iff)
      then have "pow2 j \<le> 1" by (simp add: pow2_def)
      moreover have "(0::rat) \<le> of_int m" using mj(2) by simp
      ultimately have "of_int m * pow2 j \<le> of_int m * 1" by (rule mult_left_mono)
      moreover have "(of_int m :: rat) < of_int (2 ^ 53)" using mj(3) by (simp only: of_int_less_iff)
      ultimately show False using z(3) mj(1) by simp
    qed
    then have "pow2 j = of_int (2 ^ nat j)" by (simp add: pow2_def)
    then have "z = of_int (m * 2 ^ nat j)" using mj(1) by simp
    then show ?thesis ..
  qed
  from assms(2) have "q \<noteq> 0" by auto
  then consider "0 < q" | "q < 0" by linarith
  then show ?thesis
  proof cases
    case 1
    then have "fl_pos q = Some q" using assms(1)
      by (simp add: representable_def fl_def split: option.splits)
    from main[OF 1 this] assms(2) 1 show ?thesis by simp
  next
    case 2
    then have "fl_pos (- q) = Some (- q)" using assms(1)
      by (auto simp add: representable_def fl_def split: option.splits)
    moreover have "0 < - q" "2 ^ 53 \<le> - q" using 2 assms(2) by simp_all
    ultimately obtain j where "- q = of_int j" using main[of "- q"] by blast
    then have "q = of_int (- j)" by simp
    then show ?thesis ..
  qed
qed

lemma py_round_returns:
  assumes "representable q" "0 \<le> n"
  shows "\<exists>r. py_round (Fin q) n = Inr (Fin r)"
proof -
  define P :: rat where "P = 10 ^ nat n"
  have P: "pow10 n = P" "1 \<le> P" "0 < P" using assms(2) by (simp_all add: pow10_def P_def)
  define z where "z = of_int (round_half_even (q * P)) / P"
  have "\<exists>y. fl z = Fin y"
  proof (cases "\<bar>q\<bar> < 2 ^ 53")
    case True
    from round_half_even_bounds[of "q * P"]
    have "\<bar>of_int (round_half_even (q * P)) - q * P\<bar> \<le> 1 / 2" by linarith
    then have "\<bar>of_int (round_half_even (q * P)) - q * P\<bar> / P \<le> (1 / 2) / P"
      using P(3) by (simp only: divide_le_cancel) simp
    moreover have "\<bar>of_int (round_half_even (q * P)) - q * P\<bar> / P = \<bar>z - q\<bar>"
    proof -
      have "z - q = (of_int (round_half_even (q * P)) - q * P) / P"
        using P(3) by (simp add: z_def field_simps)
      then show ?thesis using P(3) by (simp add: abs_divide)
    qed
    moreover have "(1 / 2) / P \<le> 1 / 2" using P(2,3) by (simp add: field_simps)
    ultimately have "\<bar>z - q\<bar> \<le> 1 / 2" by linarith
    with True have "\<bar>z\<bar> < 2 ^ 53 + 1" by linarith
    also have "\<dots> < pow2 1023" by (simp add: pow2_def)
    finally show ?thesis by (rule fl_finite)
  next
    case False
    then have "2 ^ 53 \<le> \<bar>q\<bar>" by simp
    from representable_large_int[OF assms(1) this] obtain j where j: "q = of_int j" ..
    have "q * P = of_int (j * 10 ^ nat n)" by (simp add: j P_def)
    then have "round_half_even (q * P) = j * 10 ^ nat n" by (simp only: round_half_even_of_int)
    then have "z = q" using P(3) by (simp add: z_def j P_def)
    then show ?thesis using assms(1) by (simp add: representable_def)
  qed
  then show ?thesis by (auto simp add: py_round_def P(1) z_def[symmetric])
qed

lemma loss_returns:
  assumes "is_float (u_loss s)" "0 \<le> ndigits s"
  shows "\<exists>l. loss s = Inr l"
proof (cases "u_loss s")
  case (Fin q)
  with assms(1) have "representable q" by (simp add: is_float_def)
  from py_round_returns[OF this assms(2)] Fin show ?thesis by (auto simp add: loss_def)
qed (simp_all add: loss_def py_round_def)

lemma float_of_int_small: "\<bar>c\<bar> < 2 ^ 53 \<Longrightarrow> float_of_int c = Inr (Fin (of_int c))"
  by (simp add: float_of_int_def fl_int)

lemma of_int_pos_succ: "0 \<le> c \<Longrightarrow> (0::rat) < of_int (c + 1)"
proof -
  assume "0 \<le> c"
  then have "0 < c + 1" by simp
  then show ?thesis by (simp only: of_int_0_less_iff)
qed

text \<open>One update, for every state whose count a float holds exactly.\<close>

lemma update_step:
  assumes "0 \<le> loss_count s" "loss_count s + 1 < 2 ^ 53"
  shows "\<exists>m'. fdiv (fadd (fmul (u_loss s) (Fin (of_int (loss_count s)))) v)
                    (Fin (of_int (loss_count s + 1))) = Inr m' \<and>
               update s v = Inr (s\<lparr>u_loss := m', loss_count := loss_count s + 1\<rparr>)"
proof -
  let ?c = "loss_count s"
  have c0: "float_of_int ?c = Inr (Fin (of_int ?c))"
    using assms by (intro float_of_int_small) simp
  have c1: "float_of_int (?c + 1) = Inr (Fin (of_int (?c + 1)))"
    using assms by (intro float_of_int_small) simp
  let ?num = "fadd (fmul (u_loss s) (Fin (of_int ?c))) v"
  from fdiv_pos[OF of_int_pos_succ[OF assms(1)], of ?num]
  obtain m' where m': "fdiv ?num (Fin (of_int (?c + 1))) = Inr m'"
    by (cases "fdiv ?num (Fin (of_int (?c + 1)))") auto
  have "update s v = Inr (s\<lparr>u_loss := m', loss_count := ?c + 1\<rparr>)"
    unfolding update_def c0 c1 by (simp only: sum.case m')
  with m' show ?thesis by blast
qed

lemma updates_returns:
  assumes "0 \<le> loss_count s" "loss_count s + int (length xs) < 2 ^ 53"
  shows "\<exists>s'. updates s xs = Inr s' \<and> loss_count s' = loss_count s + int (length xs) \<and>
              ndigits s' = ndigits s \<and> history s' = history s"
  using assms
proof (induction xs arbitrary: s)
  case Nil
  then show ?case by simp
next
  case (Cons x xs)
  from Cons.prems have "loss_count s + 1 < 2 ^ 53" by simp
  from update_step[OF Cons.prems(1) this, of x] obtain m' where
    u: "update s x = Inr (s\<lparr>u_loss := m', loss_count := loss_count s + 1\<rparr>)" by blast
  let ?s = "s\<lparr>u_loss := m', loss_count := loss_count s + 1\<rparr>"
  have "\<exists>s'. updates ?s xs = Inr s' \<and> loss_count s' = loss_count ?s + int (length xs) \<and>
              ndigits s' = ndigits ?s \<and> history s' = history ?s"
    by (rule Cons.IH) (use Cons.prems in simp_all)
  then show ?case using u by auto
qed

lemma pow_lower: "0 \<le> e \<Longrightarrow> e \<le> 1 \<Longrightarrow> 1 - of_nat n * e \<le> (1 - e) ^ n" for e :: rat
proof (induction n)
  case 0
  then show ?case by simp
next
  case (Suc n)
  have "(1 - of_nat n * e) * (1 - e) \<le> (1 - e) ^ n * (1 - e)"
    using Suc by (intro mult_right_mono) simp_all
  moreover have "1 - of_nat (Suc n) * e \<le> (1 - of_nat n * e) * (1 - e)"
  proof -
    have "(1 - of_nat n * e) * (1 - e) = 1 - of_nat (Suc n) * e + of_nat n * (e * e)"
      by (simp add: algebra_simps)
    moreover have "0 \<le> of_nat n * (e * e)" using Suc.prems by simp
    ultimately show ?thesis by linarith
  qed
  ultimately show ?case by (simp add: mult.commute)
qed

lemma pow_upper: "0 \<le> e \<Longrightarrow> (1 + e) ^ n * (1 - of_nat n * e) \<le> 1" for e :: rat
proof (induction n)
  case 0
  then show ?case by simp
next
  case (Suc n)
  have p: "0 \<le> (1 + e) ^ n" using Suc.prems by simp
  have "(1 + e) * (1 - of_nat (Suc n) * e) = 1 - of_nat n * e - of_nat (Suc n) * (e * e)"
    by (simp add: algebra_simps)
  moreover have "0 \<le> of_nat (Suc n) * (e * e)" using Suc.prems by simp
  ultimately have "(1 + e) * (1 - of_nat (Suc n) * e) \<le> 1 - of_nat n * e" by linarith
  then have "(1 + e) ^ n * ((1 + e) * (1 - of_nat (Suc n) * e)) \<le> (1 + e) ^ n * (1 - of_nat n * e)"
    using p by (rule mult_left_mono)
  also have "\<dots> \<le> 1" using Suc by simp
  finally have "(1 + e) ^ n * ((1 + e) * (1 - of_nat (Suc n) * e)) \<le> 1" .
  moreover have "(1 + e) ^ Suc n * (1 - of_nat (Suc n) * e)
      = (1 + e) ^ n * ((1 + e) * (1 - of_nat (Suc n) * e))"
    by (simp only: power_Suc mult.assoc mult.left_commute)
  ultimately show ?case by (simp only:)
qed

lemma mean_step_lower:
  fixes S v A e P a b d m' :: rat
  assumes "0 \<le> S" "0 \<le> v" "0 \<le> A" "A \<le> 1" "0 \<le> e" "e \<le> 1" "0 < d"
    and "S * A \<le> P" "P * (1 - e) \<le> a" "(a + v) * (1 - e) \<le> b" "b / d * (1 - e) \<le> m'"
  shows "(S + v) * (A * (1 - e) ^ 3) \<le> m' * d"
proof -
  let ?r = "1 - e"
  have r: "0 \<le> ?r" "?r \<le> 1" using assms by simp_all
  have "S * A * ?r \<le> P * ?r" using assms(8) r(1) by (rule mult_right_mono)
  then have 1: "S * A * ?r \<le> a" using assms(9) by linarith
  have "A * ?r \<le> 1" using assms(3,4) r by (simp add: mult_le_one)
  then have "v * (A * ?r) \<le> v * 1" using assms(2) by (rule mult_left_mono)
  then have 2: "v * A * ?r \<le> v" by (simp add: mult.assoc)
  have "(S + v) * A * ?r = S * A * ?r + v * A * ?r" by (simp add: distrib_right)
  with 1 2 have 3: "(S + v) * A * ?r \<le> a + v" by linarith
  have "(S + v) * A * ?r * ?r \<le> (a + v) * ?r" using 3 r(1) by (rule mult_right_mono)
  then have 4: "(S + v) * A * ?r * ?r \<le> b" using assms(10) by linarith
  have 5: "(S + v) * A * ?r * ?r * ?r \<le> b * ?r" using 4 r(1) by (rule mult_right_mono)
  have d0: "0 \<le> d" using assms(7) by simp
  have "b / d * ?r * d \<le> m' * d" using assms(11) d0 by (rule mult_right_mono)
  moreover have "b / d * ?r * d = b * ?r" using assms(7) by simp
  ultimately have 6: "b * ?r \<le> m' * d" by simp
  have "(S + v) * (A * ?r ^ 3) = (S + v) * A * ?r * ?r * ?r"
    by (simp add: power3_eq_cube mult.assoc)
  with 5 6 show ?thesis by linarith
qed

lemma mean_step_upper:
  fixes S v B e P a b d m' :: rat
  assumes "0 \<le> S" "0 \<le> v" "1 \<le> B" "0 \<le> e" "0 < d"
    and "P \<le> S * B" "a \<le> P * (1 + e)" "b \<le> (a + v) * (1 + e)" "m' \<le> b / d * (1 + e)"
  shows "m' * d \<le> (S + v) * (B * (1 + e) ^ 3)"
proof -
  let ?r = "1 + e"
  have r: "0 \<le> ?r" "1 \<le> ?r" using assms by simp_all
  have "P * ?r \<le> S * B * ?r" using assms(6) r(1) by (rule mult_right_mono)
  then have 1: "a \<le> S * B * ?r" using assms(7) by linarith
  have "1 * 1 \<le> B * ?r" using assms(3) r by (intro mult_mono) simp_all
  then have "1 \<le> B * ?r" by simp
  then have "v * 1 \<le> v * (B * ?r)" using assms(2) by (rule mult_left_mono)
  then have 2: "v \<le> v * B * ?r" by (simp add: mult.assoc)
  have "(S + v) * B * ?r = S * B * ?r + v * B * ?r" by (simp add: distrib_right)
  with 1 2 have 3: "a + v \<le> (S + v) * B * ?r" by linarith
  have "(a + v) * ?r \<le> (S + v) * B * ?r * ?r" using 3 r(1) by (rule mult_right_mono)
  then have 4: "b \<le> (S + v) * B * ?r * ?r" using assms(8) by linarith
  have 5: "b * ?r \<le> (S + v) * B * ?r * ?r * ?r" using 4 r(1) by (rule mult_right_mono)
  have d0: "0 \<le> d" using assms(5) by simp
  have "m' * d \<le> b / d * ?r * d" using assms(9) d0 by (rule mult_right_mono)
  moreover have "b / d * ?r * d = b * ?r" using assms(5) by simp
  ultimately have 6: "m' * d \<le> b * ?r" by simp
  have "(S + v) * (B * ?r ^ 3) = (S + v) * B * ?r * ?r * ?r"
    by (simp add: power3_eq_cube mult.assoc)
  with 5 6 show ?thesis by linarith
qed

text \<open>One rounding of a non-negative value that is zero or between \<open>l\<close> and \<open>h\<close>.\<close>

lemma fl_step:
  assumes "0 \<le> x" "x = 0 \<or> l \<le> x" "x \<le> h" "pow2 (- 1022) \<le> l" "h < pow2 1023"
  shows "\<exists>y. fl x = Fin y \<and> x * (1 - eps) \<le> y \<and> y \<le> x * (1 + eps) \<and>
             0 \<le> y \<and> (y = 0 \<or> l / 2 \<le> y) \<and> y \<le> 2 * h"
proof -
  have "x = 0 \<or> pow2 (- 1022) \<le> x" using assms(2,4) by auto
  moreover have "x < pow2 1023" using assms(3,5) by simp
  ultimately obtain y where y: "fl x = Fin y" "x * (1 - eps) \<le> y" "y \<le> x * (1 + eps)"
    using fl_rel0[of x] by blast
  have lo: "x * (1 / 2) \<le> x * (1 - eps)" using assms(1) by (intro mult_left_mono) (simp_all add: eps_def)
  have hi: "x * (1 + eps) \<le> x * 2" using assms(1) by (intro mult_left_mono) (simp_all add: eps_def)
  have "0 \<le> x * (1 / 2)" using assms(1) by simp
  with lo y(2) have y0: "0 \<le> y" by linarith
  have "y = 0 \<or> l / 2 \<le> y"
  proof (cases "x = 0")
    case True
    with y(3) y0 show ?thesis by simp
  next
    case False
    with assms(2) have "l \<le> x" by simp
    with lo y(2) show ?thesis by simp
  qed
  moreover have "y \<le> 2 * h" using hi y(3) assms(3) by simp
  ultimately show ?thesis using y y0 by blast
qed

lemma near_mean_pow_bounds:
  assumes "0 \<le> c" "c \<le> 2 ^ 40"
  shows "1 - 3 * of_int c * eps \<le> (1 - eps) ^ (3 * nat c)"
    and "(1 - eps) ^ (3 * nat c) \<le> 1" and "1 \<le> (1 + eps) ^ (3 * nat c)"
    and "(1 + eps) ^ (3 * nat c) * (1 - 3 * of_int c * eps) \<le> 1"
    and "1 / 2 \<le> 1 - 3 * of_int c * eps"
proof -
  have k: "(of_nat (3 * nat c) :: rat) = 3 * of_int c" using assms(1) by simp
  from pow_lower[of eps "3 * nat c"] show "1 - 3 * of_int c * eps \<le> (1 - eps) ^ (3 * nat c)"
    by (simp only: k) (simp add: eps_def)
  show "(1 - eps) ^ (3 * nat c) \<le> 1" by (rule power_le_one) (simp_all add: eps_def)
  show "1 \<le> (1 + eps) ^ (3 * nat c)" by (rule one_le_power) (simp add: eps_def)
  from pow_upper[of eps "3 * nat c"] show "(1 + eps) ^ (3 * nat c) * (1 - 3 * of_int c * eps) \<le> 1"
    by (simp only: k) (simp add: eps_def)
  have "(of_int c :: rat) \<le> of_int (2 ^ 40)" using assms(2) by (simp only: of_int_le_iff)
  then show "1 / 2 \<le> 1 - 3 * of_int c * eps" by (simp add: eps_def)
qed

lemma update_bound:
  assumes s: "u_loss s = Fin m" "loss_count s = c"
    and c: "0 \<le> c" "c < 2 ^ 40"
    and S: "0 \<le> S" "S = 0 \<or> 1 / 2 ^ 900 \<le> S" "S \<le> of_int c * 2 ^ 900"
    and nm: "near_mean m c S"
    and v: "v = 0 \<or> 1 / 2 ^ 900 \<le> v \<and> v \<le> 2 ^ 900"
  shows "\<exists>m'. update s (Fin v) = Inr (s\<lparr>u_loss := Fin m', loss_count := c + 1\<rparr>) \<and>
              near_mean m' (c + 1) (S + v)"
proof -
  define A where "A = (1 - eps) ^ (3 * nat c)"
  define B where "B = (1 + eps) ^ (3 * nat c)"
  define P where "P = m * of_int c"
  define d :: rat where "d = of_int (c + 1)"
  have c40: "c \<le> 2 ^ 40" using c(2) by simp
  note pb = near_mean_pow_bounds[OF c(1) c40, folded A_def B_def]
  have A: "1 / 2 \<le> A" "A \<le> 1" "0 \<le> A" using pb(1,2,5) by linarith+
  have B1: "1 \<le> B" by (rule pb(3))
  have "B * (1 / 2) \<le> B * (1 - 3 * of_int c * eps)"
    using pb(5) B1 by (intro mult_left_mono) simp_all
  with pb(4) have B2: "B \<le> 2" by simp
  from nm have SA: "S * A \<le> P" and SB: "P \<le> S * B"
    by (simp_all add: near_mean_def A_def B_def P_def)
  have v0: "0 \<le> v" and v9: "v \<le> 2 ^ 900" using v by auto
  have d: "0 < d" "1 \<le> d" "d \<le> 2 ^ 40"
  proof -
    show "0 < d" unfolding d_def by (rule of_int_pos_succ[OF c(1)])
    have "(of_int 1 :: rat) \<le> of_int (c + 1)" using c(1) by (simp only: of_int_le_iff; simp)
    then show "1 \<le> d" by (simp add: d_def)
    have "(of_int (c + 1) :: rat) \<le> of_int (2 ^ 40)" using c(2) by (simp only: of_int_le_iff; simp)
    then show "d \<le> 2 ^ 40" by (simp add: d_def)
  qed
  have cr: "(of_int c :: rat) \<le> 2 ^ 40"
  proof -
    have "(of_int c :: rat) \<le> of_int (2 ^ 40)" using c40 by (simp only: of_int_le_iff)
    then show ?thesis by simp
  qed
  \<comment> \<open>the product\<close>
  have "S * (1 / 2) \<le> S * A" using A(1) S(1) by (rule mult_left_mono)
  with SA have Plo: "S / 2 \<le> P" by simp
  then have P0: "0 \<le> P" using S(1) by simp
  have "S * B \<le> S * 2" using B2 S(1) by (rule mult_left_mono)
  with SB have "P \<le> S * 2" by simp
  moreover have "of_int c * (2::rat) ^ 900 \<le> 2 ^ 40 * 2 ^ 900" using cr by (intro mult_right_mono) simp_all
  ultimately have Phi: "P \<le> 2 ^ 941" using S(3) by simp
  have Pz: "P = 0 \<or> 1 / 2 ^ 901 \<le> P"
  proof (cases "S = 0")
    case True
    with SB P0 show ?thesis by simp
  next
    case False
    with S(2) have "1 / 2 ^ 900 \<le> S" by simp
    with Plo show ?thesis by simp
  qed
  from fl_step[OF P0 Pz Phi] obtain a where a: "fl P = Fin a" "P * (1 - eps) \<le> a"
    "a \<le> P * (1 + eps)" "0 \<le> a" "a = 0 \<or> 1 / 2 ^ 901 / 2 \<le> a" "a \<le> 2 * 2 ^ 941"
    by (auto simp add: pow2_def)
  \<comment> \<open>the sum\<close>
  have Q0: "0 \<le> a + v" using a(4) v0 by simp
  have Qz: "a + v = 0 \<or> 1 / 2 ^ 902 \<le> a + v"
  proof (cases "a = 0 \<and> v = 0")
    case True
    then show ?thesis by simp
  next
    case False
    then consider "a \<noteq> 0" | "v \<noteq> 0" by blast
    then show ?thesis
    proof cases
      case 1
      with a(5) have "1 / 2 ^ 902 \<le> a" by simp
      with v0 show ?thesis by simp
    next
      case 2
      with v have "1 / 2 ^ 900 \<le> v" by simp
      with a(4) show ?thesis by simp
    qed
  qed
  have Qhi: "a + v \<le> 2 ^ 943" using a(6) v9 by simp
  from fl_step[OF Q0 Qz Qhi] obtain b where b: "fl (a + v) = Fin b" "(a + v) * (1 - eps) \<le> b"
    "b \<le> (a + v) * (1 + eps)" "0 \<le> b" "b = 0 \<or> 1 / 2 ^ 902 / 2 \<le> b" "b \<le> 2 * 2 ^ 943"
    by (auto simp add: pow2_def)
  \<comment> \<open>the quotient\<close>
  have R0: "0 \<le> b / d" using b(4) d(1) by simp
  have Rhi: "b / d \<le> 2 ^ 944"
  proof -
    have "b / d \<le> b / 1" using d(2) b(4) by (intro divide_left_mono) simp_all
    with b(6) show ?thesis by simp
  qed
  have Rz: "b / d = 0 \<or> 1 / 2 ^ 943 \<le> b / d"
  proof (cases "b = 0")
    case True
    then show ?thesis by simp
  next
    case False
    with b(5) have b3: "1 / 2 ^ 903 \<le> b" by simp
    have x: "b / 2 ^ 40 \<le> b / d" using d(1,3) b(4) by (intro divide_left_mono) simp_all
    have y: "1 / 2 ^ 903 / 2 ^ 40 \<le> b / 2 ^ 40" using b3 by (rule divide_right_mono) simp
    have z: "(1::rat) / 2 ^ 903 / 2 ^ 40 = 1 / 2 ^ 943" by simp
    have "1 / 2 ^ 943 \<le> b / d" using order_trans[OF y x] by (simp only: z)
    then show ?thesis by (rule disjI2)
  qed
  from fl_step[OF R0 Rz Rhi] obtain m' where m': "fl (b / d) = Fin m'" "b / d * (1 - eps) \<le> m'"
    "m' \<le> b / d * (1 + eps)"
    by (auto simp add: pow2_def)
  \<comment> \<open>the update\<close>
  have fc: "float_of_int c = Inr (Fin (of_int c))" using c by (intro float_of_int_small) simp
  have fc1: "float_of_int (c + 1) = Inr (Fin (of_int (c + 1)))"
    using c by (intro float_of_int_small) simp
  have 1: "fmul (Fin m) (Fin (of_int c)) = Fin a" using a(1) by (simp add: P_def)
  have 2: "fadd (Fin a) (Fin v) = Fin b" using b(1) by simp
  have 3: "fdiv (Fin b) (Fin (of_int (c + 1))) = Inr (Fin m')"
    using m'(1) d(1) by (simp add: d_def)
  have u: "update s (Fin v) = Inr (s\<lparr>u_loss := Fin m', loss_count := c + 1\<rparr>)"
    unfolding update_def s fc fc1 by (simp only: sum.case 1 2 3)
  \<comment> \<open>the bound\<close>
  have e: "0 \<le> eps" "eps \<le> 1" by (simp_all add: eps_def)
  have k: "3 * nat (c + 1) = 3 * nat c + 3" using c(1) by simp
  from mean_step_lower[OF S(1) v0 A(3) A(2) e d(1) SA a(2) b(2) m'(2)]
  have lo: "(S + v) * (1 - eps) ^ (3 * nat (c + 1)) \<le> m' * of_int (c + 1)"
    by (simp only: k power_add A_def d_def)
  from mean_step_upper[OF S(1) v0 B1 e(1) d(1) SB a(3) b(3) m'(3)]
  have hi: "m' * of_int (c + 1) \<le> (S + v) * (1 + eps) ^ (3 * nat (c + 1))"
    by (simp only: k power_add B_def d_def)
  from lo hi have "near_mean m' (c + 1) (S + v)" by (simp only: near_mean_def simp_thms)
  with u show ?thesis by blast
qed

lemma updates_bound:
  assumes "u_loss s = Fin m" "loss_count s = c" "0 \<le> c" "c + int (length vs) \<le> 2 ^ 40"
    and "0 \<le> S" "S = 0 \<or> 1 / 2 ^ 900 \<le> S" "S \<le> of_int c * 2 ^ 900"
    and "near_mean m c S"
    and "\<forall>v\<in>set vs. v = 0 \<or> 1 / 2 ^ 900 \<le> v \<and> v \<le> 2 ^ 900"
  shows "\<exists>s' m'. updates s (map Fin vs) = Inr s' \<and> u_loss s' = Fin m' \<and>
                 near_mean m' (c + int (length vs)) (S + sum_list vs)"
  using assms
proof (induction vs arbitrary: s m c S)
  case Nil
  then show ?case by simp
next
  case (Cons v vs)
  have v: "v = 0 \<or> 1 / 2 ^ 900 \<le> v \<and> v \<le> 2 ^ 900" using Cons.prems(9) by simp
  then have v0: "0 \<le> v" and v9: "v \<le> 2 ^ 900" by auto
  have c: "c < 2 ^ 40" using Cons.prems(4) by simp
  from update_bound[OF Cons.prems(1,2,3) c Cons.prems(5,6,7,8) v] obtain m1 where
    u: "update s (Fin v) = Inr (s\<lparr>u_loss := Fin m1, loss_count := c + 1\<rparr>)"
    and nm: "near_mean m1 (c + 1) (S + v)" by blast
  let ?s = "s\<lparr>u_loss := Fin m1, loss_count := c + 1\<rparr>"
  have S0: "0 \<le> S + v" using Cons.prems(5) v0 by simp
  have Sz: "S + v = 0 \<or> 1 / 2 ^ 900 \<le> S + v"
  proof (cases "v = 0")
    case True
    then show ?thesis using Cons.prems(6) by simp
  next
    case False
    with v have "1 / 2 ^ 900 \<le> v" by simp
    then show ?thesis using Cons.prems(5) by simp
  qed
  have Sh: "S + v \<le> of_int (c + 1) * 2 ^ 900"
    using Cons.prems(7) v9 by (simp add: algebra_simps)
  have "\<exists>s' m'. updates ?s (map Fin vs) = Inr s' \<and> u_loss s' = Fin m' \<and>
                 near_mean m' (c + 1 + int (length vs)) (S + v + sum_list vs)"
    by (rule Cons.IH[OF _ _ _ _ S0 Sz Sh nm]) (use Cons.prems(3,4,9) in simp_all)
  then show ?case using u by (auto simp add: add.assoc)
qed

lemma near_mean_0: "near_mean 0 0 0"
  by (simp add: near_mean_def)

lemma sum_list_range:
  assumes "\<forall>v\<in>set vs. v = 0 \<or> 1 / 2 ^ 900 \<le> v \<and> v \<le> (2::rat) ^ 900"
  shows "0 \<le> sum_list vs"
  using assms by (induction vs) auto

text \<open>The running mean of a reset tracker stays within a relative error of the arithmetic mean.\<close>

lemma updates_near_mean:
  assumes "vs \<noteq> []" "length vs \<le> 2 ^ 40"
    and "\<forall>v\<in>set vs. v = 0 \<or> 1 / 2 ^ 900 \<le> v \<and> v \<le> 2 ^ 900"
  shows "\<exists>s' m. updates (reset t) (map Fin vs) = Inr s' \<and> u_loss s' = Fin m \<and>
     sum_list vs / of_nat (length vs) * (1 - 3 * of_nat (length vs) * eps) \<le> m \<and>
     m * (1 - 3 * of_nat (length vs) * eps) \<le> sum_list vs / of_nat (length vs)"
proof -
  let ?n = "int (length vs)"
  let ?S = "sum_list vs"
  have n40: "?n \<le> 2 ^ 40"
  proof -
    have "int (length vs) \<le> int (2 ^ 40)" using assms(2) by (simp only: of_nat_le_iff)
    then show ?thesis by simp
  qed
  have "\<exists>s' m'. updates (reset t) (map Fin vs) = Inr s' \<and> u_loss s' = Fin m' \<and>
                 near_mean m' (0 + ?n) (0 + ?S)"
    by (rule updates_bound[where m = 0 and S = 0])
       (use n40 assms(3) in \<open>simp_all add: reset_def near_mean_0\<close>)
  then obtain s' m where s': "updates (reset t) (map Fin vs) = Inr s'" "u_loss s' = Fin m"
    and nm: "near_mean m ?n ?S" by auto
  have n0: "0 \<le> ?n" by simp
  note pb = near_mean_pow_bounds[OF n0 n40]
  define N :: rat where "N = of_nat (length vs)"
  define g where "g = 1 - 3 * N * eps"
  have N: "0 < N" using assms(1) by (simp add: N_def)
  have Ni: "(of_int ?n :: rat) = N" by (simp add: N_def)
  have g: "1 / 2 \<le> g" "0 \<le> g" using pb(5) by (simp_all add: g_def N_def)
  have S0: "0 \<le> ?S" by (rule sum_list_range[OF assms(3)])
  from nm have lo: "?S * (1 - eps) ^ (3 * nat ?n) \<le> m * N"
    and hi: "m * N \<le> ?S * (1 + eps) ^ (3 * nat ?n)"
    by (simp_all add: near_mean_def N_def)
  have "?S * g \<le> ?S * (1 - eps) ^ (3 * nat ?n)"
    using pb(1) S0 unfolding g_def Ni by (rule mult_left_mono)
  with lo have "?S * g \<le> m * N" by simp
  then have 1: "?S / N * g \<le> m" using N by (simp add: field_simps)
  have "m * N * g \<le> ?S * (1 + eps) ^ (3 * nat ?n) * g"
    using hi g(2) by (rule mult_right_mono)
  moreover have "?S * ((1 + eps) ^ (3 * nat ?n) * g) \<le> ?S * 1"
    using pb(4) S0 unfolding g_def Ni by (rule mult_left_mono)
  ultimately have "m * N * g \<le> ?S" by (simp add: mult.assoc)
  then have 2: "m * g \<le> ?S / N" using N by (simp add: field_simps)
  from s' 1 2 show ?thesis unfolding g_def N_def by blast
qed

lemma py_round_between:
  assumes "lo \<le> m" "m \<le> hi" "lo \<le> q" "q \<le> hi"
    and "round_half_even (lo * pow10 n) = round_half_even (hi * pow10 n)"
  shows "py_round (Fin m) n = py_round (Fin q) n"
proof -
  have p: "0 \<le> pow10 n" using pow10_pos[of n] by simp
  have a: "lo * pow10 n \<le> m * pow10 n" using assms(1) p by (rule mult_right_mono)
  have b: "m * pow10 n \<le> hi * pow10 n" using assms(2) p by (rule mult_right_mono)
  have c: "lo * pow10 n \<le> q * pow10 n" using assms(3) p by (rule mult_right_mono)
  have d: "q * pow10 n \<le> hi * pow10 n" using assms(4) p by (rule mult_right_mono)
  have "round_half_even (m * pow10 n) = round_half_even (lo * pow10 n)"
    by (rule round_half_even_between[OF a b assms(5)])
  moreover have "round_half_even (q * pow10 n) = round_half_even (lo * pow10 n)"
    by (rule round_half_even_between[OF c d assms(5)])
  ultimately show ?thesis by (simp add: py_round_def)
qed

text \<open>
  Claim C1, as amended. Every update of a tracker whose count a float holds exactly
  returns, stores \<open>(mean * count + value) / (count + 1)\<close> evaluated in float arithmetic
  as the new mean and increments the count by one. After \<open>N \<ge> 1\<close> finite values fed
  to a fresh or just-reset tracker the count is \<open>N\<close>, the precision and the history
  are untouched, the mean is a float, and \<open>loss\<close> is \<open>round\<close> of that mean to the
  configured number of digits, which returns whenever that number is not negative. The
  mean is exactly the arithmetic mean of the values when no operation rounds
  (\<open>exact_run\<close>). For \<open>N \<le> 2\<^sup>4\<^sup>0\<close> values that are zero or between \<open>2\<^sup>-\<^sup>9\<^sup>0\<^sup>0\<close> and
  \<open>2\<^sup>9\<^sup>0\<^sup>0\<close> it lies between \<open>mean * (1 - 3 N eps)\<close> and \<open>mean / (1 - 3 N eps)\<close>,
  and \<open>loss\<close> returns the arithmetic mean rounded to the configured number of digits
  whenever the two ends of that interval round to the same decimal.
\<close>

theorem updates_running_mean:
  fixes vs :: "rat list"
  assumes "vs \<noteq> []" "length vs < 2 ^ 53"
  shows
    "(0 \<le> loss_count s \<and> loss_count s + 1 < 2 ^ 53 \<longrightarrow>
        (\<exists>m'. fdiv (fadd (fmul (u_loss s) (Fin (of_int (loss_count s)))) x)
                    (Fin (of_int (loss_count s + 1))) = Inr m' \<and>
              update s x = Inr (s\<lparr>u_loss := m', loss_count := loss_count s + 1\<rparr>))) \<and>
     (\<exists>t'. updates (reset t) (map Fin vs) = Inr t' \<and>
        loss_count t' = int (length vs) \<and> ndigits t' = ndigits t \<and> history t' = history t \<and>
        is_float (u_loss t') \<and>
        loss t' = py_round (u_loss t') (ndigits t) \<and>
        (0 \<le> ndigits t \<longrightarrow> (\<exists>l. loss t' = Inr l)) \<and>
        (exact_run 0 0 vs \<longrightarrow> u_loss t' = Fin (sum_list vs / of_nat (length vs))) \<and>
        (length vs \<le> 2 ^ 40 \<and> (\<forall>v\<in>set vs. v = 0 \<or> 1 / 2 ^ 900 \<le> v \<and> v \<le> 2 ^ 900) \<longrightarrow>
           (\<exists>m. u_loss t' = Fin m \<and>
              sum_list vs / of_nat (length vs) * (1 - 3 * of_nat (length vs) * eps) \<le> m \<and>
              m \<le> sum_list vs / of_nat (length vs) / (1 - 3 * of_nat (length vs) * eps) \<and>
              (round_half_even
                 (sum_list vs / of_nat (length vs) * (1 - 3 * of_nat (length vs) * eps)
                    * pow10 (ndigits t))
               = round_half_even
                 (sum_list vs / of_nat (length vs) / (1 - 3 * of_nat (length vs) * eps)
                    * pow10 (ndigits t)) \<longrightarrow>
               loss t' = py_round (Fin (sum_list vs / of_nat (length vs))) (ndigits t)))))"
proof -
  let ?mean = "sum_list vs / of_nat (length vs)"
  let ?g = "1 - 3 * of_nat (length vs) * eps"
  have step: "0 \<le> loss_count s \<and> loss_count s + 1 < 2 ^ 53 \<longrightarrow>
        (\<exists>m'. fdiv (fadd (fmul (u_loss s) (Fin (of_int (loss_count s)))) x)
                    (Fin (of_int (loss_count s + 1))) = Inr m' \<and>
              update s x = Inr (s\<lparr>u_loss := m', loss_count := loss_count s + 1\<rparr>))"
    using update_step[of s x] by blast
  have n53: "int (length vs) < 2 ^ 53"
  proof -
    have "int (length vs) < int (2 ^ 53)" using assms(2) by (simp only: of_nat_less_iff)
    then show ?thesis by simp
  qed
  have "\<exists>s'. updates (reset t) (map Fin vs) = Inr s' \<and>
      loss_count s' = loss_count (reset t) + int (length (map Fin vs)) \<and>
      ndigits s' = ndigits (reset t) \<and> history s' = history (reset t)"
    by (rule updates_returns) (use n53 in \<open>simp_all add: reset_def\<close>)
  then obtain t' where t': "updates (reset t) (map Fin vs) = Inr t'"
    "loss_count t' = int (length vs)" "ndigits t' = ndigits t" "history t' = history t"
    by (auto simp add: reset_def)
  have fl: "is_float (u_loss t')"
    by (rule updates_is_float[OF t'(1)]) (simp add: reset_def)
  have l: "loss t' = py_round (u_loss t') (ndigits t)" by (simp add: loss_def t'(3))
  have r: "0 \<le> ndigits t \<longrightarrow> (\<exists>l. loss t' = Inr l)"
    using loss_returns[OF fl] t'(3) by simp
  have ex: "exact_run 0 0 vs \<longrightarrow> u_loss t' = Fin ?mean"
  proof
    assume "exact_run 0 0 vs"
    from updates_exact[OF this, of "reset t"] obtain t2 where
      t2: "updates (reset t) (map Fin vs) = Inr t2"
      "u_loss t2 = Fin (sum_list vs / of_int (int (length vs)))"
      using assms(1) by (auto simp: reset_def)
    have "t2 = t'" using t2(1) t'(1) by simp
    with t2(2) show "u_loss t' = Fin ?mean" by simp
  qed
  have nb: "length vs \<le> 2 ^ 40 \<and> (\<forall>v\<in>set vs. v = 0 \<or> 1 / 2 ^ 900 \<le> v \<and> v \<le> 2 ^ 900) \<longrightarrow>
           (\<exists>m. u_loss t' = Fin m \<and> ?mean * ?g \<le> m \<and> m \<le> ?mean / ?g \<and>
              (round_half_even (?mean * ?g * pow10 (ndigits t))
               = round_half_even (?mean / ?g * pow10 (ndigits t)) \<longrightarrow>
               loss t' = py_round (Fin ?mean) (ndigits t)))"
  proof
    assume a: "length vs \<le> 2 ^ 40 \<and> (\<forall>v\<in>set vs. v = 0 \<or> 1 / 2 ^ 900 \<le> v \<and> v \<le> 2 ^ 900)"
    then have len: "length vs \<le> 2 ^ 40"
      and rng: "\<forall>v\<in>set vs. v = 0 \<or> 1 / 2 ^ 900 \<le> v \<and> v \<le> 2 ^ 900" by simp_all
    from updates_near_mean[OF assms(1) len rng, of t] obtain s2 m where
      s2: "updates (reset t) (map Fin vs) = Inr s2" "u_loss s2 = Fin m"
        "?mean * ?g \<le> m" "m * ?g \<le> ?mean" by blast
    have "s2 = t'" using s2(1) t'(1) by simp
    with s2 have m: "u_loss t' = Fin m" "?mean * ?g \<le> m" "m * ?g \<le> ?mean" by simp_all
    have n40: "int (length vs) \<le> 2 ^ 40"
    proof -
      have "int (length vs) \<le> int (2 ^ 40)" using len by (simp only: of_nat_le_iff)
      then show ?thesis by simp
    qed
    from near_mean_pow_bounds(5)[OF _ n40] have g: "1 / 2 \<le> ?g" by simp
    then have g0: "0 < ?g" by linarith
    have g1: "?g \<le> 1" by (simp add: eps_def)
    have hi: "m \<le> ?mean / ?g" by (rule iffD2[OF pos_le_divide_eq[OF g0] m(3)])
    have mean0: "0 \<le> ?mean" using sum_list_range[OF rng] by simp
    have lo': "?mean * ?g \<le> ?mean" by (rule mult_left_le[OF g1 mean0])
    have hi': "?mean \<le> ?mean / ?g"
      by (rule iffD2[OF pos_le_divide_eq[OF g0] lo'])
    have "round_half_even (?mean * ?g * pow10 (ndigits t))
               = round_half_even (?mean / ?g * pow10 (ndigits t)) \<longrightarrow>
               loss t' = py_round (Fin ?mean) (ndigits t)"
    proof
      assume "round_half_even (?mean * ?g * pow10 (ndigits t))
               = round_half_even (?mean / ?g * pow10 (ndigits t))"
      from py_round_between[OF m(2) hi lo' hi' this] show "loss t' = py_round (Fin ?mean) (ndigits t)"
        by (simp add: l m(1))
    qed
    then show "\<exists>m. u_loss t' = Fin m \<and> ?mean * ?g \<le> m \<and> m \<le> ?mean / ?g \<and>
              (round_half_even (?mean * ?g * pow10 (ndigits t))
               = round_half_even (?mean / ?g * pow10 (ndigits t)) \<longrightarrow>
               loss t' = py_round (Fin ?mean) (ndigits t))"
      by (intro exI[of _ m] conjI) (rule m(1) m(2) hi | assumption)+
  qed
  show ?thesis
    by (intro conjI exI[of _ t']) (rule step t'(1) t'(2) t'(3) t'(4) fl l r ex nb)+
qed

text \<open>
  The values 1, 3, 2 fed to a fresh tracker with four digits: every hypothesis holds,
  the mean 2 is reached exactly and \<open>loss\<close> returns \<open>2.0\<close>.
\<close>

theorem updates_running_mean_witness:
  "[1, 3, 2 :: rat] \<noteq> [] \<and> length [1, 3, 2 :: rat] < 2 ^ 53 \<and>
   0 \<le> loss_count (new_LossTracker 4) \<and> loss_count (new_LossTracker 4) + 1 < 2 ^ 53 \<and>
   0 \<le> ndigits (new_LossTracker 4) \<and>
   exact_run 0 0 [1, 3, 2] \<and>
   length [1, 3, 2 :: rat] \<le> 2 ^ 40 \<and>
   list_all (\<lambda>v. v = 0 \<or> 1 / 2 ^ 900 \<le> v \<and> v \<le> 2 ^ 900) [1, 3, 2 :: rat] \<and>
   round_half_even (2 * (1 - 9 * eps) * pow10 4) = round_half_even (2 / (1 - 9 * eps) * pow10 4) \<and>
   update (new_LossTracker 4) (Fin 1)
     = Inr \<lparr>ndigits = 4, u_loss = Fin 1, loss_count = 1, history = []\<rparr> \<and>
   (\<exists>t'. updates (reset (new_LossTracker 4)) (map Fin [1, 3, 2]) = Inr t' \<and>
      loss_count t' = 3 \<and> u_loss t' = Fin 2 \<and> loss t' = Inr (Fin 2))"
proof -
  let ?t = "new_LossTracker 4"
  have h1: "[1, 3, 2 :: rat] \<noteq> []" and h2: "length [1, 3, 2 :: rat] < 2 ^ 53" by simp_all
  have h3: "0 \<le> loss_count ?t \<and> loss_count ?t + 1 < 2 ^ 53" and h4: "0 \<le> ndigits ?t"
    by (simp_all add: new_LossTracker_def)
  have h5: "exact_run 0 0 [1, 3, 2]" by (simp add: representable_numeral)
  have h6: "length [1, 3, 2 :: rat] \<le> 2 ^ 40 \<and>
      (\<forall>v\<in>set [1, 3, 2 :: rat]. v = 0 \<or> 1 / 2 ^ 900 \<le> v \<and> v \<le> 2 ^ 900)" by simp
  have h6': "length [1, 3, 2 :: rat] \<le> 2 ^ 40 \<and>
      list_all (\<lambda>v. v = 0 \<or> 1 / 2 ^ 900 \<le> v \<and> v \<le> 2 ^ 900) [1, 3, 2 :: rat]" by simp
  have h7: "round_half_even (2 * (1 - 9 * eps) * pow10 4)
      = round_half_even (2 / (1 - 9 * eps) * pow10 4)"
    by (simp add: eps_def pow10_def)
  have mean: "sum_list [1, 3, 2 :: rat] / of_nat (length [1, 3, 2 :: rat]) = 2" by simp
  have g: "1 - 3 * of_nat (length [1, 3, 2 :: rat]) * eps = 1 - 9 * eps" by simp
  have pr: "py_round (Fin 2) 4 = Inr (Fin 2)"
    by (simp add: py_round_def pow10_def fl_numeral)
  note T = updates_running_mean[OF h1 h2, where s = ?t and x = "Fin 1" and t = ?t]
  from T h3 obtain m' where
    m': "fdiv (fadd (fmul (u_loss ?t) (Fin (of_int (loss_count ?t)))) (Fin 1))
           (Fin (of_int (loss_count ?t + 1))) = Inr m'"
    and u: "update ?t (Fin 1) = Inr (?t\<lparr>u_loss := m', loss_count := loss_count ?t + 1\<rparr>)"
    by blast
  from m' have "m' = Fin 1" by (simp add: new_LossTracker_def)
  with u have u1: "update ?t (Fin 1)
      = Inr \<lparr>ndigits = 4, u_loss = Fin 1, loss_count = 1, history = []\<rparr>"
    by (simp add: new_LossTracker_def)
  from T obtain t' where t': "updates (reset ?t) (map Fin [1, 3, 2]) = Inr t'"
    "loss_count t' = int (length [1, 3, 2 :: rat])"
    "exact_run 0 0 [1, 3, 2] \<longrightarrow>
       u_loss t' = Fin (sum_list [1, 3, 2] / of_nat (length [1, 3, 2 :: rat]))"
    "length [1, 3, 2 :: rat] \<le> 2 ^ 40 \<and>
       (\<forall>v\<in>set [1, 3, 2 :: rat]. v = 0 \<or> 1 / 2 ^ 900 \<le> v \<and> v \<le> 2 ^ 900) \<longrightarrow>
       (\<exists>m. u_loss t' = Fin m \<and>
          sum_list [1, 3, 2] / of_nat (length [1, 3, 2 :: rat])
            * (1 - 3 * of_nat (length [1, 3, 2 :: rat]) * eps) \<le> m \<and>
          m \<le> sum_list [1, 3, 2] / of_nat (length [1, 3, 2 :: rat])
            / (1 - 3 * of_nat (length [1, 3, 2 :: rat]) * eps) \<and>
          (round_half_even
             (sum_list [1, 3, 2] / of_nat (length [1, 3, 2 :: rat])
                * (1 - 3 * of_nat (length [1, 3, 2 :: rat]) * eps) * pow10 (ndigits ?t))
           = round_half_even
             (sum_list [1, 3, 2] / of_nat (length [1, 3, 2 :: rat])
                / (1 - 3 * of_nat (length [1, 3, 2 :: rat]) * eps) * pow10 (ndigits ?t)) \<longrightarrow>
           loss t' = py_round (Fin (sum_list [1, 3, 2] / of_nat (length [1, 3, 2 :: rat])))
                       (ndigits ?t)))"
    by blast
  have n4: "ndigits ?t = 4" by (simp add: new_LossTracker_def)
  from t'(3) h5 have ul: "u_loss t' = Fin 2" unfolding mean by blast
  from t'(4) h6 have "round_half_even (2 * (1 - 9 * eps) * pow10 4)
      = round_half_even (2 / (1 - 9 * eps) * pow10 4) \<longrightarrow> loss t' = py_round (Fin 2) 4"
    unfolding mean g n4 by blast
  with h7 pr have lo: "loss t' = Inr (Fin 2)" by simp
  have lc: "loss_count t' = 3" using t'(2) by simp
  from t'(1) lc ul lo have E: "\<exists>t'. updates (reset ?t) (map Fin [1, 3, 2]) = Inr t' \<and>
      loss_count t' = 3 \<and> u_loss t' = Fin 2 \<and> loss t' = Inr (Fin 2)" by blast
  show ?thesis
    by (intro conjI) (use h1 h2 h3 h4 h5 h6' h7 u1 E in blast)+
qed

lemma fl_2p53: "fl 9007199254740992 = Fin 9007199254740992"
  by (subst fl_eval[of _ 53]) (simp_all add: pow2_def)

lemma fl_2p53_plus_1: "fl 9007199254740993 = Fin 9007199254740992"
  by (subst fl_eval[of _ 53]) (simp_all add: pow2_def)

lemma fl_2p53_div_3: "fl (9007199254740992 / 3) = Fin (6004799503160661 / 2)"
  by (subst fl_eval[of _ 51]) (simp_all add: pow2_def)

lemma fl_tie_2p53: "fl (18014398509481983 / 2) = Fin 9007199254740992"
  by (subst fl_eval[of _ 52]) (simp_all add: pow2_def)

lemma fl_2p53_plus_2: "fl 9007199254740994 = Fin 9007199254740994"
  by (subst fl_eval[of _ 53]) (simp_all add: pow2_def)

lemma fl_2p51_half: "fl (4503599627370497 / 2) = Fin (4503599627370497 / 2)"
  by (subst fl_eval[of _ 51]) (simp_all add: pow2_def)

lemma run_step1: "update (new_LossTracker 4) (Fin 9007199254740992) =
    Inr \<lparr>ndigits = 4, u_loss = Fin 9007199254740992, loss_count = 1, history = []\<rparr>"
  by (simp add: update_def new_LossTracker_def float_of_int_def fl_2p53)

lemma run_step2: "update \<lparr>ndigits = 4, u_loss = Fin 9007199254740992, loss_count = 1, history = []\<rparr> (Fin 1) =
    Inr \<lparr>ndigits = 4, u_loss = Fin 4503599627370496, loss_count = 2, history = []\<rparr>"
  by (simp add: update_def float_of_int_def fl_2p53 fl_2p53_plus_1 fl_numeral)

lemma run_step3: "update \<lparr>ndigits = 4, u_loss = Fin 4503599627370496, loss_count = 2, history = []\<rparr> (Fin 1) =
    Inr \<lparr>ndigits = 4, u_loss = Fin (6004799503160661 / 2), loss_count = 3, history = []\<rparr>"
  by (simp add: update_def float_of_int_def fl_2p53 fl_2p53_plus_1 fl_2p53_div_3 fl_numeral)

lemma run_step4: "update \<lparr>ndigits = 4, u_loss = Fin (6004799503160661 / 2), loss_count = 3, history = []\<rparr> (Fin 2) =
    Inr \<lparr>ndigits = 4, u_loss = Fin (4503599627370497 / 2), loss_count = 4, history = []\<rparr>"
  by (simp add: update_def float_of_int_def fl_tie_2p53 fl_2p53_plus_2 fl_2p51_half fl_numeral)

text \<open>
  Claim C1 as stated fails on floats. Feeding \<open>2\<^sup>5\<^sup>3\<close>, 1, 1, 2 to a fresh tracker
  (four digits) leaves the internal mean at \<open>2\<^sup>5\<^sup>1 + 1/2\<close>, while the arithmetic
  mean of the four values is \<open>2\<^sup>5\<^sup>1 + 1\<close>; \<open>loss\<close> then returns
  \<open>2\<^sup>5\<^sup>1 + 1/2\<close>, not the arithmetic mean rounded to four digits.
\<close>

theorem updates_mean_counterexample:
  "updates (new_LossTracker 4) [Fin 9007199254740992, Fin 1, Fin 1, Fin 2] =
     Inr \<lparr>ndigits = 4, u_loss = Fin (4503599627370497 / 2), loss_count = 4, history = []\<rparr> \<and>
   sum_list [9007199254740992, 1, 1, 2] / of_nat (length [9007199254740992, 1, 1, 2 :: rat])
     = (2251799813685249 :: rat) \<and>
   Fin (4503599627370497 / 2) \<noteq> Fin 2251799813685249 \<and>
   loss \<lparr>ndigits = 4, u_loss = Fin (4503599627370497 / 2), loss_count = 4, history = []\<rparr>
     = Inr (Fin (4503599627370497 / 2)) \<and>
   py_round (Fin 2251799813685249) 4 = Inr (Fin 2251799813685249)"
  by (simp add: run_step1 run_step2 run_step3 run_step4 loss_def py_round_def pow10_def fl_2p51_half fl_numeral)

lemma update_no_zero_division:
  assumes "0 \<le> loss_count t"
  shows "update t v \<noteq> Inl ZeroDivisionError"
proof (cases "float_of_int (loss_count t)")
  case (Inl e)
  then show ?thesis using float_of_int_err[OF Inl] by (simp add: update_def)
next
  case c: (Inr c)
  show ?thesis
  proof (cases "float_of_int (loss_count t + 1)")
    case (Inl e)
    then show ?thesis using float_of_int_err[OF Inl] c by (simp add: update_def)
  next
    case (Inr c1)
    from assms have "1 \<le> loss_count t + 1" by simp
    from float_of_int_pos[OF this Inr] obtain q where q: "c1 = Fin q" "0 < q" by auto
    show ?thesis using c Inr q fdiv_pos[OF q(2)]
      by (auto simp: update_def split: sum.splits)
  qed
qed

lemma update_result:
  "(case update t v of Inr t' \<Rightarrow> loss_count t' = loss_count t + 1 \<and> ndigits t' = ndigits t \<and> history t' = history t
     | Inl e \<Rightarrow> e = OverflowError \<or> e = ZeroDivisionError)"
proof -
  have "fdiv a b = Inl e \<Longrightarrow> e = ZeroDivisionError" for a b e
    by (cases a; cases b) (auto split: if_splits)
  then show ?thesis
    by (auto simp: update_def split: sum.splits dest: float_of_int_err)
qed

text \<open>
  Claim C8. Reading \<open>loss\<close> on a tracker that has received no update since it was
  constructed or reset returns \<open>0.0\<close>, whatever the number of digits. No operation of
  the tracker divides by zero: \<open>loss\<close> and \<open>on_epoch_end\<close> never raise
  \<open>ZeroDivisionError\<close>, and \<open>update\<close>, which divides by \<open>count + 1\<close>, does not
  either when the count is not negative, and leaves the count one larger.
\<close>

theorem loss_zero_without_updates:
  assumes "0 \<le> loss_count t"
  shows "loss (new_LossTracker n) = Inr (Fin 0) \<and> loss (reset t) = Inr (Fin 0) \<and>
         loss t \<noteq> Inl ZeroDivisionError \<and> on_epoch_end t r \<noteq> Inl ZeroDivisionError \<and>
         update t v \<noteq> Inl ZeroDivisionError \<and>
         (case update t v of Inr t' \<Rightarrow> loss_count t' = loss_count t + 1 | Inl e \<Rightarrow> e = OverflowError)"
proof -
  have 1: "loss (new_LossTracker n) = Inr (Fin 0)"
    by (simp add: loss_def new_LossTracker_def py_round_zero)
  have 2: "loss (reset t) = Inr (Fin 0)"
    by (simp add: loss_def reset_def py_round_zero)
  have 3: "loss t \<noteq> Inl ZeroDivisionError"
    using py_round_err[of "u_loss t" "ndigits t" ZeroDivisionError] by (auto simp: loss_def)
  have 4: "on_epoch_end t r \<noteq> Inl ZeroDivisionError"
    using 3 by (auto simp: on_epoch_end_def Let_def split: sum.splits)
  have 5: "update t v \<noteq> Inl ZeroDivisionError"
    by (rule update_no_zero_division[OF assms])
  have 6: "(case update t v of Inr t' \<Rightarrow> loss_count t' = loss_count t + 1 | Inl e \<Rightarrow> e = OverflowError)"
    using update_result[of t v] 5 by (auto split: sum.splits)
  from 1 2 3 4 5 6 show ?thesis by simp
qed

text \<open>A fresh tracker satisfies the hypothesis, and its first update returns.\<close>

theorem loss_zero_without_updates_witness:
  "0 \<le> loss_count (new_LossTracker 4) \<and>
   loss (new_LossTracker 4) = Inr (Fin 0) \<and>
   update (new_LossTracker 4) (Fin 1) \<noteq> Inl ZeroDivisionError \<and>
   update (new_LossTracker 4) (Fin 1) = Inr \<lparr>ndigits = 4, u_loss = Fin 1, loss_count = 1, history = []\<rparr>"
proof -
  have h: "0 \<le> loss_count (new_LossTracker 4)" by (simp add: new_LossTracker_def)
  have u: "update (new_LossTracker 4) (Fin 1) =
      Inr \<lparr>ndigits = 4, u_loss = Fin 1, loss_count = 1, history = []\<rparr>"
    by (simp add: update_def new_LossTracker_def float_of_int_def)
  show ?thesis
    using h u loss_zero_without_updates[OF h, of 4 True "Fin 1"] by simp
qed

text \<open>
  Claim C7, as amended. \<open>on_epoch_end\<close> reads \<open>loss\<close> first. In every tracker
  state where that read returns a value \<open>l\<close>, \<open>on_epoch_end(reset=True)\<close> appends
  exactly the one element \<open>l\<close> to the history and zeroes mean and count, so that
  \<open>loss\<close> then returns \<open>0.0\<close>; with \<open>reset=False\<close> the same element is appended
  and nothing else changes. In the remaining states the read raises \<open>OverflowError\<close>,
  and \<open>on_epoch_end\<close> raises it too, for both values of \<open>reset\<close>, before anything
  is appended or reset.
\<close>

theorem on_epoch_end_appends_loss:
  "(case loss t of
      Inr l \<Rightarrow>
        on_epoch_end t True
          = Inr (t\<lparr>u_loss := Fin 0, loss_count := 0, history := history t @ [l]\<rparr>) \<and>
        loss (t\<lparr>u_loss := Fin 0, loss_count := 0, history := history t @ [l]\<rparr>) = Inr (Fin 0) \<and>
        on_epoch_end t False = Inr (t\<lparr>history := history t @ [l]\<rparr>)
    | Inl e \<Rightarrow> e = OverflowError \<and> on_epoch_end t True = Inl e \<and> on_epoch_end t False = Inl e)"
  using py_round_err[of "u_loss t" "ndigits t"]
  by (auto simp add: on_epoch_end_def reset_def loss_def py_round_zero split: sum.splits)

lemma fl_312: "fl (39 / 1250) = Fin (4496393867966703 / 144115188075855872)"
  by (subst fl_eval[of _ "- 6"]) (simp_all add: pow2_def)

text \<open>
  A tracker whose mean is \<open>1/32 = 0.03125\<close>: the tie rounds to the even digit and
  \<open>0.0312\<close> is appended.
\<close>

theorem on_epoch_end_appends_loss_witness:
  "loss \<lparr>ndigits = 4, u_loss = Fin (1 / 32), loss_count = 3, history = [Fin 1]\<rparr>
     = Inr (Fin (4496393867966703 / 144115188075855872)) \<and>
   on_epoch_end \<lparr>ndigits = 4, u_loss = Fin (1 / 32), loss_count = 3, history = [Fin 1]\<rparr> True
     = Inr \<lparr>ndigits = 4, u_loss = Fin 0, loss_count = 0,
            history = [Fin 1, Fin (4496393867966703 / 144115188075855872)]\<rparr> \<and>
   on_epoch_end \<lparr>ndigits = 4, u_loss = Fin (1 / 32), loss_count = 3, history = [Fin 1]\<rparr> False
     = Inr \<lparr>ndigits = 4, u_loss = Fin (1 / 32), loss_count = 3,
            history = [Fin 1, Fin (4496393867966703 / 144115188075855872)]\<rparr>"
proof -
  have h: "loss \<lparr>ndigits = 4, u_loss = Fin (1 / 32), loss_count = 3, history = [Fin 1]\<rparr>
     = Inr (Fin (4496393867966703 / 144115188075855872))"
    by (simp add: loss_def py_round_def pow10_def fl_312)
  show ?thesis
    using h on_epoch_end_appends_loss
      [of "\<lparr>ndigits = 4, u_loss = Fin (1 / 32), loss_count = 3, history = [Fin 1]\<rparr>"]
    by simp
qed

lemma fl_17e307: "fl (8517715530038134 * 2 ^ 971) = Fin (8517715530038134 * 2 ^ 971)"
  using fl_exact[of 8517715530038134 971] by (simp add: pow2_def)

lemma fl_2e308: "fl (2 * 10 ^ 308) = PInf"
  by (subst fl_eval[of _ 1024]) (simp_all add: pow2_def)

lemma round_17e307: "round_half_even (8517715530038134 * 2 ^ 971 / 10 ^ 308) = 2"
  by simp

lemma update_17e307:
  "update (new_LossTracker (- 308)) (Fin (8517715530038134 * 2 ^ 971)) =
     Inr \<lparr>ndigits = - 308, u_loss = Fin (8517715530038134 * 2 ^ 971), loss_count = 1, history = []\<rparr>"
  using fl_17e307 by (simp add: update_def new_LossTracker_def float_of_int_def)

lemma loss_overflow:
  "loss \<lparr>ndigits = - 308, u_loss = Fin (8517715530038134 * 2 ^ 971), loss_count = 1, history = []\<rparr>
     = Inl OverflowError"
  using round_17e307 fl_2e308 by (simp add: loss_def py_round_def pow10_def)

text \<open>
  Claim C7 as stated, for every tracker state, fails. \<open>LossTracker(-308)\<close> after
  \<open>update(1.7e308)\<close> (the float \<open>8517715530038134 * 2\<^sup>9\<^sup>7\<^sup>1\<close>) holds that value
  as its mean with count 1; \<open>round(1.7e308, -308)\<close> is \<open>2e308\<close>, too large for a
  float, so reading \<open>loss\<close> raises \<open>OverflowError\<close>, and \<open>on_epoch_end\<close> raises it
  for both values of \<open>reset\<close>: nothing is appended and the count stays 1.
\<close>

theorem on_epoch_end_counterexample:
  "update (new_LossTracker (- 308)) (Fin (8517715530038134 * 2 ^ 971)) =
     Inr \<lparr>ndigits = - 308, u_loss = Fin (8517715530038134 * 2 ^ 971), loss_count = 1, history = []\<rparr> \<and>
   loss \<lparr>ndigits = - 308, u_loss = Fin (8517715530038134 * 2 ^ 971), loss_count = 1, history = []\<rparr>
     = Inl OverflowError \<and>
   on_epoch_end \<lparr>ndigits = - 308, u_loss = Fin (8517715530038134 * 2 ^ 971), loss_count = 1, history = []\<rparr> True
     = Inl OverflowError \<and>
   on_epoch_end \<lparr>ndigits = - 308, u_loss = Fin (8517715530038134 * 2 ^ 971), loss_count = 1, history = []\<rparr> False
     = Inl OverflowError"
  by (simp only: update_17e307 on_epoch_end_def loss_overflow sum.case simp_thms)

text \<open>
  Claim C9. For every tracker state, \<open>reset()\<close> sets the running mean and the sample
  count to zero and leaves every other field as it was: the history and the rounding
  precision are those of the state before the call.
\<close>

theorem reset_frame:
  "u_loss (reset t) = Fin 0 \<and> loss_count (reset t) = 0 \<and>
   history (reset t) = history t \<and> ndigits (reset t) = ndigits t \<and>
   LossTracker.more (reset t) = LossTracker.more t"
  by (simp add: reset_def)

section \<open>Properties of the sort key\<close>

lemma slash_not_digit [simp]: "\<not> is_digit CHR ''/''"
  by (simp add: is_digit_def)

lemma lookahead_iff: "lookahead r \<longleftrightarrow> CHR ''/'' \<notin> set r"
  by (auto simp: lookahead_def dropWhile_eq_Nil_conv)

lemma in_set_dropWhile: "a \<in> set xs \<Longrightarrow> \<not> P a \<Longrightarrow> a \<in> set (dropWhile P xs)"
  by (induction xs) auto

lemma drop_digits_slash:
  assumes "k \<le> length (takeWhile is_digit s)"
  shows "CHR ''/'' \<in> set (drop k s) \<longleftrightarrow> CHR ''/'' \<in> set (dropWhile is_digit s)"
proof -
  have s: "s = takeWhile is_digit s @ dropWhile is_digit s" by simp
  have "drop k s = drop k (takeWhile is_digit s) @ dropWhile is_digit s"
    using assms by (subst s) (simp del: takeWhile_dropWhile_id)
  moreover have "CHR ''/'' \<notin> set (drop k (takeWhile is_digit s))"
    using set_takeWhileD[of "CHR ''/''" is_digit s] by (auto dest: in_set_dropD)
  ultimately show ?thesis by simp
qed

lemma match_digits_simp:
  "match_digits s =
     (if takeWhile is_digit s \<noteq> [] \<and> CHR ''/'' \<notin> set (dropWhile is_digit s)
      then Some (takeWhile is_digit s, length (takeWhile is_digit s)) else None)"
proof -
  let ?n = "length (takeWhile is_digit s)"
  let ?c = "CHR ''/'' \<notin> set (dropWhile is_digit s)"
  have f: "filter (\<lambda>k. lookahead (drop k s)) (rev [1..<Suc ?n]) = (if ?c then rev [1..<Suc ?n] else [])"
  proof (cases ?c)
    case True
    then have "\<forall>k \<in> set (rev [1..<Suc ?n]). lookahead (drop k s)"
      using drop_digits_slash[of _ s] by (auto simp: lookahead_iff)
    then have "filter (\<lambda>k. lookahead (drop k s)) (rev [1..<Suc ?n]) = rev [1..<Suc ?n]"
      by (rule filter_True)
    with True show ?thesis by simp
  next
    case False
    then have "\<forall>k \<in> set (rev [1..<Suc ?n]). \<not> lookahead (drop k s)"
      using drop_digits_slash[of _ s] by (auto simp: lookahead_iff)
    then have "filter (\<lambda>k. lookahead (drop k s)) (rev [1..<Suc ?n]) = []"
      by (rule filter_False)
    with False show ?thesis by simp
  qed
  show ?thesis
  proof (cases "?n = 0")
    case True
    then show ?thesis by (simp add: match_digits_def)
  next
    case False
    then have "[1..<Suc ?n] = [1..<?n] @ [?n]" by (simp add: Suc_leI)
    then have r: "rev [1..<Suc ?n] = ?n # rev [1..<?n]" by simp
    have t: "take ?n s = takeWhile is_digit s"
      by (metis append_eq_conv_conj takeWhile_dropWhile_id)
    have ne: "takeWhile is_digit s \<noteq> []" using False by simp
    show ?thesis
    proof (cases ?c)
      case True
      have "filter (\<lambda>k. lookahead (drop k s)) (rev [1..<Suc ?n]) = ?n # rev [1..<?n]"
        using f r True by simp
      then have "match_digits s = Some (take ?n s, ?n)"
        unfolding match_digits_def by (simp only: list.case)
      then show ?thesis using True ne t by simp
    next
      case c: False
      have "filter (\<lambda>k. lookahead (drop k s)) (rev [1..<Suc ?n]) = []"
        using f c by simp
      then have "match_digits s = None"
        unfolding match_digits_def by (simp only: list.case)
      then show ?thesis using c by simp
    qed
  qed
qed

lemma match_digits_slash: "CHR ''/'' \<in> set s \<Longrightarrow> match_digits s = None"
  by (simp add: match_digits_simp in_set_dropWhile)

lemma match_here_slash: "CHR ''/'' \<in> set s \<Longrightarrow> match_here (c # s) = None"
  by (simp add: match_here_def match_digits_slash)

lemma findall_from_prefix:
  "findall_from 0 (x @ CHR ''/'' # y) = findall_from 0 (CHR ''/'' # y)"
  by (induction x) (simp_all add: match_here_slash)

lemma findall_from_slash:
  assumes "CHR ''/'' \<notin> set y"
  shows "findall_from 0 (CHR ''/'' # y) = findall_from 0 y"
proof (cases y)
  case Nil
  then show ?thesis by (simp add: match_here_def match_digits_simp)
next
  case (Cons c y')
  show ?thesis
  proof (cases "is_digit c")
    case True
    let ?ds = "takeWhile is_digit y"
    have ne: "?ds \<noteq> []" using True Cons by simp
    have ns: "CHR ''/'' \<notin> set (dropWhile is_digit y)" using assms by (auto dest: set_dropWhileD)
    have m: "match_digits y = Some (?ds, length ?ds)" using ne ns by (simp add: match_digits_simp)
    have c: "c \<noteq> CHR ''/''" using assms Cons by auto
    obtain n where n: "length ?ds = Suc n" using ne by (cases ?ds) auto
    have "findall_from 0 (CHR ''/'' # y) = ?ds # findall_from (length ?ds) y"
      using m by (simp add: match_here_def)
    also have "\<dots> = ?ds # findall_from n y'" using n Cons by simp
    also have "\<dots> = findall_from 0 y"
      using m n c Cons by (simp add: match_here_def)
    finally show ?thesis .
  next
    case False
    have "match_digits y = None" using False Cons by (simp add: match_digits_simp)
    moreover have "match_digits (CHR ''/'' # y) = None" by (simp add: match_digits_simp)
    ultimately show ?thesis by (simp add: match_here_def)
  qed
qed

lemma findall_from_first_number:
  assumes "CHR ''/'' \<notin> set w"
  shows "(first_number w = [] \<longrightarrow> findall_from 0 w = []) \<and>
         (first_number w \<noteq> [] \<longrightarrow>
            findall_from 0 w \<noteq> [] \<and> hd (findall_from 0 w) = first_number w)"
  using assms
proof (induction w)
  case Nil
  then show ?case by (simp add: first_number_def)
next
  case (Cons c w)
  then have c: "c \<noteq> CHR ''/''" and w: "CHR ''/'' \<notin> set w" by auto
  show ?case
  proof (cases "is_digit c")
    case True
    have ns: "CHR ''/'' \<notin> set (dropWhile is_digit (c # w))"
      using Cons.prems by (auto dest: set_dropWhileD)
    have "match_here (c # w) = Some (takeWhile is_digit (c # w), length (takeWhile is_digit (c # w)))"
      using True c ns by (simp add: match_here_def match_digits_simp)
    moreover have "first_number (c # w) = takeWhile is_digit (c # w)"
      using True by (simp add: first_number_def)
    ultimately show ?thesis using True by simp
  next
    case False
    have m: "match_here (c # w) = None"
      using False c by (simp add: match_here_def match_digits_simp)
    have f: "first_number (c # w) = first_number w"
      using False by (simp add: first_number_def)
    have "findall_from 0 (c # w) = findall_from 0 w" using m by simp
    then show ?thesis using Cons.IH[OF w] by (simp only: f) 
  qed
qed

lemma last_component_no_slash: "CHR ''/'' \<notin> set (last_component p)"
  by (auto simp: last_component_def dest: set_takeWhileD)

lemma split_last_component:
  "p = last_component p \<or> (\<exists>x. p = x @ CHR ''/'' # last_component p)"
proof (cases "dropWhile (\<lambda>c. c \<noteq> CHR ''/'') (rev p)")
  case Nil
  then have "takeWhile (\<lambda>c. c \<noteq> CHR ''/'') (rev p) = rev p"
    by (metis append_Nil2 takeWhile_dropWhile_id)
  then have "last_component p = p"
    unfolding last_component_def by (simp only: rev_rev_ident)
  then show ?thesis by simp
next
  case (Cons a z)
  then have "a = CHR ''/''" using hd_dropWhile[of "\<lambda>c. c \<noteq> CHR ''/''" "rev p"] by auto
  with Cons have "rev p = takeWhile (\<lambda>c. c \<noteq> CHR ''/'') (rev p) @ CHR ''/'' # z"
    by (metis takeWhile_dropWhile_id)
  then have "rev (rev p) = rev (takeWhile (\<lambda>c. c \<noteq> CHR ''/'') (rev p) @ CHR ''/'' # z)" by simp
  then have "p = rev z @ CHR ''/'' # last_component p" by (simp add: last_component_def)
  then show ?thesis by blast
qed

lemma findall_last_component: "findall p = findall_from 0 (last_component p)"
  using split_last_component[of p]
proof
  assume "p = last_component p"
  then show ?thesis by (simp add: findall_def)
next
  assume "\<exists>x. p = x @ CHR ''/'' # last_component p"
  then obtain x where x: "p = x @ CHR ''/'' # last_component p" ..
  have "findall p = findall_from 0 (x @ CHR ''/'' # last_component p)"
    by (subst x) (simp add: findall_def)
  also have "\<dots> = findall_from 0 (CHR ''/'' # last_component p)"
    by (rule findall_from_prefix)
  also have "\<dots> = findall_from 0 (last_component p)"
    by (rule findall_from_slash[OF last_component_no_slash])
  finally show ?thesis .
qed

text \<open>
  Claim C3, as amended. For every path, the sort key \<open>_inner\<close> is the integer value of
  the first (leftmost) maximal run of digits in the final component of the path; when the
  final component has no digit, \<open>_inner\<close> raises \<open>IndexError\<close>.
\<close>

theorem inner_first_number:
  "inner p =
     (if first_number (last_component p) = [] then Inl IndexError
      else Inr (int_of_digits (first_number (last_component p))))"
proof -
  let ?w = "last_component p"
  note f = findall_from_first_number[OF last_component_no_slash[of p]]
  show ?thesis
  proof (cases "first_number ?w = []")
    case True
    with f have "findall p = []" by (simp add: findall_last_component)
    with True show ?thesis by (simp add: inner_def)
  next
    case False
    with f have "findall p \<noteq> []" "hd (findall p) = first_number ?w"
      by (simp_all add: findall_last_component)
    then obtain r where "findall p = first_number ?w # r" by (cases "findall p") auto
    with False show ?thesis by (simp add: inner_def)
  qed
qed

text \<open>
  Claim C3 as stated fails: in \<open>run2_checkpoint_7\<close> the last numeric token is 7, and
  the key is 2.
\<close>

theorem inner_last_number_counterexample:
  "inner ''/p/checkpoints/run2_checkpoint_7'' = Inr 2 \<and>
   last_number (last_component ''/p/checkpoints/run2_checkpoint_7'') = ''7'' \<and>
   int_of_digits ''7'' = 7"
  by (simp add: inner_first_number last_component_def first_number_def last_number_def
      is_digit_def int_of_digits_def)

section \<open>Properties of \<open>get_checkpoint_dir\<close>\<close>

lemma fold_rmtree_accelerator [simp]:
  "accelerator (fold (rmtree od) xs w) = accelerator w"
  by (induction xs arbitrary: w) (simp_all add: rmtree_def emit_def)

lemma fold_rmtree_trace [simp]:
  "trace (fold (rmtree od) xs w) = trace w @ map Rmtree xs"
  by (induction xs arbitrary: w) (simp_all add: rmtree_def emit_def)

lemma list_all_Rmtree [simp]: "list_all is_fs_event (map Rmtree xs)"
  by (induction xs) simp_all

lemma prune_accelerator [simp]: "accelerator (fst (prune od w)) = accelerator w"
  by (simp add: prune_def Let_def makedirs_root_def emit_def split: option.splits sum.splits)

lemma prune_trace:
  "\<exists>fs. trace (fst (prune od w)) = trace w @ Makedirs od # Listdir od # map Rmtree fs"
proof (cases "\<exists>xs. fst (prune od w) = fold (rmtree od) xs (emit (Listdir od) (makedirs_root od w))")
  case True
  then obtain xs where "fst (prune od w) = fold (rmtree od) xs (emit (Listdir od) (makedirs_root od w))" ..
  then have "trace (fst (prune od w)) = trace w @ Makedirs od # Listdir od # map Rmtree xs"
    by (simp add: emit_def makedirs_root_def)
  then show ?thesis ..
next
  case False
  have "fst (prune od w) = emit (Listdir od) (makedirs_root od w)"
    using False by (auto simp add: prune_def Let_def split: option.splits sum.splits if_splits)
  then have "trace (fst (prune od w)) = trace w @ Makedirs od # Listdir od # map Rmtree []"
    by (simp add: emit_def makedirs_root_def)
  then show ?thesis ..
qed

text \<open>
  Claim C10. Every call of \<open>get_checkpoint_dir\<close>, whether or not the process is the
  local main process and whether the call returns or raises, leaves the project
  configuration equal to the one before the call with \<open>automatic_checkpoint_naming\<close> set
  to \<open>False\<close>: no other field of the configuration changes, and
  \<open>is_local_main_process\<close> is as before. The write is the first effect of the call:
  the trace grows by \<open>SetNaming False\<close> followed by file system events only.
\<close>

theorem get_checkpoint_dir_sets_naming_first:
  "project_configuration (accelerator (fst (get_checkpoint_dir w n))) =
     (project_configuration (accelerator w))\<lparr>automatic_checkpoint_naming := False\<rparr> \<and>
   is_local_main_process (accelerator (fst (get_checkpoint_dir w n))) =
     is_local_main_process (accelerator w) \<and>
   (\<exists>fs. trace (fst (get_checkpoint_dir w n)) = trace w @ SetNaming False # fs \<and>
         list_all is_fs_event fs)"
proof -
  let ?w0 = "set_naming w"
  have a0: "accelerator ?w0 = (accelerator w)\<lparr>project_configuration :=
      (project_configuration (accelerator w))\<lparr>automatic_checkpoint_naming := False\<rparr>\<rparr>"
    and t0: "trace ?w0 = trace w @ [SetNaming False]"
    by (simp_all add: set_naming_def emit_def)
  show ?thesis
  proof (cases "project_dir (project_configuration (accelerator ?w0))")
    case None
    then have "fst (get_checkpoint_dir w n) = ?w0"
      by (simp add: get_checkpoint_dir_def Let_def)
    then show ?thesis using a0 t0 by simp
  next
    case (Some pd)
    let ?od = "path_join pd ''checkpoints''"
    let ?name = "''checkpoint_'' @ str_int (n - 1)"
    show ?thesis
    proof (cases "is_local_main_process (accelerator ?w0)")
      case False
      then have "fst (get_checkpoint_dir w n) = ?w0"
        using Some by (simp add: get_checkpoint_dir_def Let_def)
      then show ?thesis using a0 t0 by simp
    next
      case True
      obtain fs where p: "trace (fst (prune ?od ?w0)) = trace ?w0 @ Makedirs ?od # Listdir ?od # map Rmtree fs"
        using prune_trace by blast
      have "fst (get_checkpoint_dir w n) = fst (prune ?od ?w0) \<or>
            fst (get_checkpoint_dir w n) = makedirs_child ?od ?name (fst (prune ?od ?w0))"
        using Some True
        by (cases "prune ?od ?w0") (auto simp add: get_checkpoint_dir_def Let_def split: sum.splits)
      then show ?thesis
      proof
        assume e: "fst (get_checkpoint_dir w n) = fst (prune ?od ?w0)"
        show ?thesis unfolding e using a0 t0 p by simp
      next
        assume e: "fst (get_checkpoint_dir w n) = makedirs_child ?od ?name (fst (prune ?od ?w0))"
        show ?thesis unfolding e using a0 t0 p by (simp add: makedirs_child_def emit_def)
      qed
    qed
  qed
qed

end
